theory Spec2Isabelle
  imports Complex_Main "HOL-Library.Char_ord" "HOL-Library.List_Lexorder"
begin

section \<open>Python string primitives used by main.py\<close>

text \<open>
  Python strings are modelled as \<^typ>\<open>string\<close>; a \<^typ>\<open>char\<close> stands for a code point
  in the range 0..255, compared by its code as Python compares strings.
\<close>

text \<open>\<^verbatim>\<open>str.lower()\<close> on code points below 256: A-Z and the Latin-1 capitals move up by 32.\<close>

definition is_upper :: "char \<Rightarrow> bool" where
  "is_upper c = (let n = (of_char c :: nat) in
     (65 \<le> n \<and> n \<le> 90) \<or> (192 \<le> n \<and> n \<le> 222 \<and> n \<noteq> 215))"

definition lower_char :: "char \<Rightarrow> char" where
  "lower_char c =
     (if is_upper c
      then (case c of Char b0 b1 b2 b3 b4 b5 b6 b7 \<Rightarrow> Char b0 b1 b2 b3 b4 True b6 b7)
      else c)"

definition lower :: "string \<Rightarrow> string" where
  "lower s = map lower_char s"

text \<open>\<^verbatim>\<open>s.startswith(t)\<close> and \<^verbatim>\<open>s.endswith(t)\<close>; with a tuple, any member may match.\<close>

definition startswith :: "string \<Rightarrow> string \<Rightarrow> bool" where
  "startswith s t = (take (length t) s = t)"

definition endswith :: "string \<Rightarrow> string \<Rightarrow> bool" where
  "endswith s t = (length t \<le> length s \<and> drop (length s - length t) s = t)"

definition endswith_any :: "string \<Rightarrow> string list \<Rightarrow> bool" where
  "endswith_any s ts = list_ex (endswith s) ts"

definition startswith_any :: "string \<Rightarrow> string list \<Rightarrow> bool" where
  "startswith_any s ts = list_ex (startswith s) ts"

text \<open>\<^verbatim>\<open>s.rstrip("/")\<close> removes every trailing slash.\<close>

definition rstrip_slash :: "string \<Rightarrow> string" where
  "rstrip_slash s = rev (dropWhile (\<lambda>c. c = CHR ''/'') (rev s))"

text \<open>\<^verbatim>\<open>str.isspace\<close> per character, for code points below 256.\<close>

definition is_space :: "char \<Rightarrow> bool" where
  "is_space c = (let n = (of_char c :: nat) in
     (9 \<le> n \<and> n \<le> 13) \<or> (28 \<le> n \<and> n \<le> 32) \<or> n = 133 \<or> n = 160)"

text \<open>\<^verbatim>\<open>s.strip()\<close> removes leading and trailing whitespace.\<close>

definition strip :: "string \<Rightarrow> string" where
  "strip s = rev (dropWhile is_space (rev (dropWhile is_space s)))"

text \<open>\<^verbatim>\<open>s.split("/")[-1]\<close>: the part after the last slash.\<close>

definition last_segment :: "string \<Rightarrow> string" where
  "last_segment s = rev (takeWhile (\<lambda>c. c \<noteq> CHR ''/'') (rev s))"

text \<open>Decimal rendering of integers, as \<^verbatim>\<open>str(i)\<close> and \<^verbatim>\<open>f"{i}"\<close> produce it.\<close>

definition digit_char :: "nat \<Rightarrow> char" where
  "digit_char d = ''0123456789'' ! d"

function str_nat :: "nat \<Rightarrow> string" where
  "str_nat n =
     (if n < 10 then [digit_char n] else str_nat (n div 10) @ [digit_char (n mod 10)])"
  by pat_completeness auto
termination
  by (relation "measure id") auto

declare str_nat.simps [simp del]

definition str_int :: "int \<Rightarrow> string" where
  "str_int i = (if i < 0 then CHR ''-'' # str_nat (nat (- i)) else str_nat (nat i))"

text \<open>\<^verbatim>\<open>f"{idx:03d}"\<close> for a non-negative index: zero-padded to at least three digits.\<close>

definition fmt_03d :: "nat \<Rightarrow> string" where
  "fmt_03d n = replicate (3 - length (str_nat n)) CHR ''0'' @ str_nat n"

section \<open>Series helpers\<close>

text \<open>
  \<^verbatim>\<open>SAFE_NAME_RE = re.compile(r"[^A-Za-z0-9 _-]+")\<close>: \<open>safe_char\<close> is the complement of
  the character class, and \<open>sub_unsafe\<close> is \<^verbatim>\<open>SAFE_NAME_RE.sub("_", s)\<close>: scanning from
  the left, each match is a maximal run of characters outside the class (the \<^verbatim>\<open>+\<close> is
  greedy) and is replaced by one underscore.
\<close>

definition safe_char :: "char \<Rightarrow> bool" where
  "safe_char c =
     ((CHR ''A'' \<le> c \<and> c \<le> CHR ''Z'') \<or> (CHR ''a'' \<le> c \<and> c \<le> CHR ''z'') \<or>
      (CHR ''0'' \<le> c \<and> c \<le> CHR ''9'') \<or> c = CHR '' '' \<or> c = CHR ''_'' \<or> c = CHR ''-'')"

function sub_unsafe :: "string \<Rightarrow> string" where
  "sub_unsafe [] = []"
| "sub_unsafe (c # cs) =
     (if safe_char c then c # sub_unsafe cs
      else CHR ''_'' # sub_unsafe (dropWhile (\<lambda>d. \<not> safe_char d) cs))"
  by pat_completeness auto
termination
  by (relation "measure length") (auto simp: length_dropWhile_le less_Suc_eq_le)

text \<open>\<^verbatim>\<open>return SAFE_NAME_RE.sub("_", s).strip() or "series"\<close>\<close>

definition sanitize_name :: "string \<Rightarrow> string" where
  "sanitize_name s = (let t = strip (sub_unsafe s) in if t = [] then ''series'' else t)"

text \<open>
  The sanitization rule as the specification words it, for comparison with the code:
  every character outside the class becomes an underscore, one for one, and an empty
  result becomes \<open>series\<close>.
\<close>

definition replace_each :: "string \<Rightarrow> string" where
  "replace_each s = map (\<lambda>c. if safe_char c then c else CHR ''_'') s"

definition sanitize_name_spec :: "string \<Rightarrow> string" where
  "sanitize_name_spec s = (let t = replace_each s in if t = [] then ''series'' else t)"

section \<open>Chapter enumeration\<close>

text \<open>
  \<^verbatim>\<open>base = base_url.rstrip("/")\<close>;
  \<^verbatim>\<open>return [f"{base}/chapter-{i}" for i in range(1, total_chapters + 1)]\<close>
\<close>

definition generate_chapter_urls :: "string \<Rightarrow> int \<Rightarrow> string list" where
  "generate_chapter_urls base_url total_chapters =
     (let base = rstrip_slash base_url
      in map (\<lambda>i. base @ ''/chapter-'' @ str_int i) [1..total_chapters])"

text \<open>
  \<^verbatim>\<open>for idx, chapter_url in enumerate(chapter_urls, 1): label = str(idx)\<close> in
  \<^verbatim>\<open>run_bulk\<close>: the labelled chapter list the bulk loop walks through.
\<close>

definition enumerate1 :: "'a list \<Rightarrow> (nat \<times> 'a) list" where
  "enumerate1 xs = zip [1..<Suc (length xs)] xs"

definition labelled_chapters :: "string \<Rightarrow> int \<Rightarrow> (string \<times> string) list" where
  "labelled_chapters base_url total_chapters =
     map (\<lambda>(idx, chapter_url). (str_nat idx, chapter_url))
       (enumerate1 (generate_chapter_urls base_url total_chapters))"

section \<open>PDF layout\<close>

text \<open>
  Python's floats are idealised as \<^typ>\<open>real\<close>; pixel sizes are integers. True division
  raises \<^verbatim>\<open>ZeroDivisionError\<close> on a zero divisor, which the model keeps as a value.
\<close>

datatype py_error = ZeroDivisionError

definition truediv :: "real \<Rightarrow> real \<Rightarrow> py_error + real" where
  "truediv a b = (if b = 0 then Inl ZeroDivisionError else Inr (a / b))"

text \<open>
  The argument \<^verbatim>\<open>ndpi\<close> is \<^verbatim>\<open>None\<close> or a pair whose components may be \<^verbatim>\<open>None\<close>.
  \<^verbatim>\<open>ndpi[0] if ndpi and ndpi[0] and ndpi[0] > 0 else 96\<close>: a missing pair, a missing or
  zero component (both falsy) and a non-positive component all give 96.
\<close>

type_synonym dpi_pair = "(real option \<times> real option) option"

definition dpi_or_96 :: "real option \<Rightarrow> real" where
  "dpi_or_96 d = (case d of None \<Rightarrow> 96 | Some v \<Rightarrow> if v \<noteq> 0 \<and> v > 0 then v else 96)"

definition dpi_x_of :: "dpi_pair \<Rightarrow> real" where
  "dpi_x_of ndpi = (case ndpi of None \<Rightarrow> 96 | Some (x, y) \<Rightarrow> dpi_or_96 x)"

definition dpi_y_of :: "dpi_pair \<Rightarrow> real" where
  "dpi_y_of ndpi = (case ndpi of None \<Rightarrow> 96 | Some (x, y) \<Rightarrow> dpi_or_96 y)"

type_synonym geometry = "real \<times> real \<times> real \<times> real"

definition layout_fun_fixed_width :: "int \<Rightarrow> int \<Rightarrow> dpi_pair \<Rightarrow> py_error + geometry" where
  "layout_fun_fixed_width imgwidthpx imgheightpx ndpi =
     (let page_width_pt = 720;
          dpi_x = dpi_x_of ndpi;
          dpi_y = dpi_y_of ndpi
      in case truediv (real_of_int imgwidthpx) dpi_x of
           Inl e \<Rightarrow> Inl e
         | Inr img_w_in \<Rightarrow>
        (case truediv (real_of_int imgheightpx) dpi_y of
           Inl e \<Rightarrow> Inl e
         | Inr img_h_in \<Rightarrow>
        (let img_w_pt = img_w_in * 72;
             img_h_pt = img_h_in * 72
         in case (if img_w_pt \<noteq> 0 then truediv page_width_pt img_w_pt else Inr 1) of
              Inl e \<Rightarrow> Inl e
            | Inr scale \<Rightarrow>
           (let scaled_h_pt = img_h_pt * scale
            in Inr (page_width_pt, scaled_h_pt, page_width_pt, scaled_h_pt)))))"

section \<open>Image addresses and download jobs\<close>

text \<open>
  \<^verbatim>\<open>urllib.parse.urlparse\<close> belongs to the standard library; the model takes it as a
  parameter and reads the two fields the code reads.
\<close>

record parsed_url =
  scheme :: string
  path :: string

type_synonym url_parser = "string \<Rightarrow> parsed_url"

definition is_valid_image_url :: "url_parser \<Rightarrow> string \<Rightarrow> bool" where
  "is_valid_image_url urlparse u =
     (let parsed = urlparse u
      in if lower (scheme parsed) \<notin> set [''http'', ''https''] then False
         else if endswith_any (lower (path parsed)) [''.svg'', ''.ico''] then False
         else True)"

text \<open>
  \<^verbatim>\<open>os.path.splitext(p)[1]\<close> with the POSIX separator: the extension starts at the last
  dot of the last path component, provided some character other than a dot precedes it
  there; otherwise it is empty.
\<close>

definition splitext_ext :: "string \<Rightarrow> string" where
  "splitext_ext p =
     (let r = rev (last_segment p)
      in if CHR ''.'' \<notin> set r then []
         else if list_all (\<lambda>c. c = CHR ''.'') (tl (dropWhile (\<lambda>c. c \<noteq> CHR ''.'') r)) then []
         else CHR ''.'' # rev (takeWhile (\<lambda>c. c \<noteq> CHR ''.'') r))"

text \<open>\<^verbatim>\<open>os.path.join(a, b)\<close> and \<^verbatim>\<open>os.path.basename(p)\<close> with the POSIX separator.\<close>

definition path_join :: "string \<Rightarrow> string \<Rightarrow> string" where
  "path_join a b =
     (if startswith b ''/'' then b
      else if a = [] \<or> endswith a ''/'' then a @ b
      else a @ ''/'' @ b)"

definition basename :: "string \<Rightarrow> string" where
  "basename p = last_segment p"

text \<open>
  The job loop of \<^verbatim>\<open>download_images_threaded\<close>. A job is the tuple
  \<^verbatim>\<open>(idx, u, dest)\<close>; the loop state is the job list and the running index.
\<close>

type_synonym job = "nat \<times> string \<times> string"

definition dest_ext :: "url_parser \<Rightarrow> string \<Rightarrow> string" where
  "dest_ext urlparse u =
     (let parsed = urlparse u;
          ext = lower (splitext_ext (path parsed))
      in if ext \<notin> set [''.jpg'', ''.jpeg'', ''.png'', ''.webp''] then ''.jpg'' else ext)"

definition job_step :: "url_parser \<Rightarrow> string \<Rightarrow> job list \<times> nat \<Rightarrow> string \<Rightarrow> job list \<times> nat" where
  "job_step urlparse out_dir st u =
     (case st of (jobs, idx) \<Rightarrow>
        if \<not> is_valid_image_url urlparse u then (jobs, idx)
        else (let idx' = idx + 1;
                  filename = fmt_03d idx' @ dest_ext urlparse u;
                  dest = path_join out_dir filename
              in (jobs @ [(idx', u, dest)], idx')))"

definition build_jobs :: "url_parser \<Rightarrow> string \<Rightarrow> string list \<Rightarrow> job list" where
  "build_jobs urlparse out_dir image_urls = fst (foldl (job_step urlparse out_dir) ([], 0) image_urls)"

definition job_idx :: "job \<Rightarrow> nat" where
  "job_idx j = fst j"

definition job_url :: "job \<Rightarrow> string" where
  "job_url j = fst (snd j)"

definition job_dest :: "job \<Rightarrow> string" where
  "job_dest j = snd (snd j)"

text \<open>The job the loop appends for the index \<open>k\<close> it has just assigned to the address \<open>u\<close>.\<close>

definition job_of :: "url_parser \<Rightarrow> string \<Rightarrow> nat \<times> string \<Rightarrow> job" where
  "job_of urlparse out_dir = (\<lambda>(k, u). (k, u, path_join out_dir (fmt_03d k @ dest_ext urlparse u)))"

text \<open>
  What \<^verbatim>\<open>urlparse\<close> returns on the addresses used in the examples of this theory; any
  other address is given an empty scheme and itself as path, as \<^verbatim>\<open>urlparse\<close> does for a
  plain relative path.
\<close>

definition urlparse_examples :: url_parser where
  "urlparse_examples u =
     (if u = ''https://cdn.example/a/p1.PNG'' then \<lparr>scheme = ''https'', path = ''/a/p1.PNG''\<rparr>
      else if u = ''http://cdn.example/a/p2.webp?x=1'' then \<lparr>scheme = ''http'', path = ''/a/p2.webp''\<rparr>
      else if u = ''https://cdn.example/a/logo.svg'' then \<lparr>scheme = ''https'', path = ''/a/logo.svg''\<rparr>
      else if u = ''https://cdn.example/favicon.ICO'' then \<lparr>scheme = ''https'', path = ''/favicon.ICO''\<rparr>
      else if u = ''https://cdn.example/a/p3'' then \<lparr>scheme = ''https'', path = ''/a/p3''\<rparr>
      else if u = ''ftp://cdn.example/a/p4.jpg'' then \<lparr>scheme = ''ftp'', path = ''/a/p4.jpg''\<rparr>
      else \<lparr>scheme = [], path = u\<rparr>)"

section \<open>The world the pipeline runs in\<close>

text \<open>
  Exceptions are values. \<^verbatim>\<open>requests.RequestException\<close> is kept apart from every other
  \<^verbatim>\<open>Exception\<close> because \<^verbatim>\<open>get_with_retries\<close> catches only the former;
  \<open>exn_str\<close> is \<^verbatim>\<open>str(e)\<close>.
\<close>

datatype exn = RequestException string | OtherException string

fun exn_str :: "exn \<Rightarrow> string" where
  "exn_str (RequestException m) = m"
| "exn_str (OtherException m) = m"

datatype http_method = GET | HEAD

text \<open>
  A response as the code uses it: its text, the chunks \<^verbatim>\<open>iter_content\<close> yields, and
  the exception that ends the stream early, if one does.
\<close>

record response =
  resp_text :: string
  resp_chunks :: "string list"
  resp_stream_error :: "exn option"

datatype content = Bytes string | Pdf "(string \<times> geometry) list"

text \<open>
  One constructor per \<^verbatim>\<open>console.print\<close> site, carrying the values the message
  interpolates.
\<close>

type_synonym job_result = "nat \<times> string \<times> bool \<times> nat \<times> string option"

datatype message =
    ErrorFetchingPage string
  | ErrorFetchingChapter string
  | NoContentDiv string
  | NoImagesIn string
  | NoConvertibleImagesIn string
  | PdfSaved string
  | ImagesExtracted "(nat \<times> string) list"
  | DownloadResults "job_result list"
  | FilesProcessed nat string
  | Setup string
  | CouldNotDetermineTotal
  | TotalChaptersFound int
  | ChapterExists string string
  | ProcessingChapter string string
  | NoImagesForChapter string
  | ProcessingSingle string string
  | NoImagesFound

text \<open>
  The state the code acts on: regular files by path, the requests sent so far, the
  durations passed to \<^verbatim>\<open>sleep\<close>, the console, and the byte count of the progress bar.
  Directories are not tracked; \<^verbatim>\<open>os.makedirs(..., exist_ok=True)\<close> leaves the state
  as it is.
\<close>

record world =
  files :: "(string \<times> content) list"
  requests :: "(http_method \<times> string) list"
  slept :: "real list"
  console :: "message list"
  advanced :: nat

text \<open>
  What the code cannot decide by itself: the outcome of the \<open>n\<close>-th request of the run
  (\<open>n\<close> counts the requests sent before it), and the library functions
  \<^verbatim>\<open>urlparse\<close>, BeautifulSoup's view of a page (for each
  \<^verbatim>\<open>div.flex.justify-between\<close> the stripped texts of its spans; for the
  \<^verbatim>\<open>div#content\<close>, if there is one, the \<^verbatim>\<open>data-src\<close> and \<^verbatim>\<open>src\<close> of each image),
  \<^verbatim>\<open>int\<close> on text, Pillow's conversion to JPEG and the image header img2pdf reads.
\<close>

record env =
  http_get :: "nat \<Rightarrow> string \<Rightarrow> exn + response"
  http_head :: "nat \<Rightarrow> string \<Rightarrow> exn + string option"
  url_parse :: url_parser
  total_divs :: "string \<Rightarrow> string list list"
  int_of_text :: "string \<Rightarrow> int option"
  content_imgs :: "string \<Rightarrow> (string option \<times> string option) list option"
  to_jpeg :: "string \<Rightarrow> string option"
  image_info :: "string \<Rightarrow> (int \<times> int \<times> dpi_pair) option"

definition write_file :: "string \<Rightarrow> content \<Rightarrow> (string \<times> content) list \<Rightarrow> (string \<times> content) list" where
  "write_file p c fs = (p, c) # filter (\<lambda>(q, _). q \<noteq> p) fs"

definition path_exists :: "world \<Rightarrow> string \<Rightarrow> bool" where
  "path_exists w p = (map_of (files w) p \<noteq> None)"

definition say :: "message \<Rightarrow> world \<Rightarrow> world" where
  "say m w = w\<lparr>console := console w @ [m]\<rparr>"

definition sleep :: "real \<Rightarrow> world \<Rightarrow> world" where
  "sleep t w = w\<lparr>slept := slept w @ [t]\<rparr>"

definition send :: "http_method \<Rightarrow> string \<Rightarrow> world \<Rightarrow> world" where
  "send m url w = w\<lparr>requests := requests w @ [(m, url)]\<rparr>"

section \<open>Networking helpers\<close>

text \<open>
  \<^verbatim>\<open>get_with_retries(session, url, retries=..)\<close>: the loop over
  \<^verbatim>\<open>range(1, retries + 1)\<close>, by the attempts left. A success returns the response; a
  \<^verbatim>\<open>RequestException\<close> is remembered and followed by \<^verbatim>\<open>sleep(0.6 * attempt)\<close>; any
  other exception leaves the function at once. After the loop \<^verbatim>\<open>raise last_err\<close>
  raises the last error, or a \<^verbatim>\<open>TypeError\<close> when there was no attempt.
\<close>

fun get_attempts :: "env \<Rightarrow> string \<Rightarrow> nat \<Rightarrow> nat \<Rightarrow> exn option \<Rightarrow> world \<Rightarrow> (exn + response) \<times> world" where
  "get_attempts e url attempt 0 last_err w =
     (case last_err of
        None \<Rightarrow> (Inl (OtherException ''exceptions must derive from BaseException''), w)
      | Some x \<Rightarrow> (Inl x, w))"
| "get_attempts e url attempt (Suc left) last_err w =
     (let outcome = http_get e (length (requests w)) url;
          w1 = send GET url w
      in case outcome of
           Inr resp \<Rightarrow> (Inr resp, w1)
         | Inl (RequestException m) \<Rightarrow>
             get_attempts e url (attempt + 1) left (Some (RequestException m))
               (sleep (0.6 * real attempt) w1)
         | Inl (OtherException m) \<Rightarrow> (Inl (OtherException m), w1))"

definition get_with_retries :: "env \<Rightarrow> string \<Rightarrow> int \<Rightarrow> world \<Rightarrow> (exn + response) \<times> world" where
  "get_with_retries e url retries w = get_attempts e url 1 (nat retries) None w"

text \<open>
  \<^verbatim>\<open>_head_content_length\<close>: 0 for an invalid address, for a failed probe, and for a
  missing or non-numeric header; the decimal value of the header otherwise.
\<close>

definition is_digit :: "char \<Rightarrow> bool" where
  "is_digit c = (CHR ''0'' \<le> c \<and> c \<le> CHR ''9'')"

definition nat_of_digits :: "string \<Rightarrow> nat" where
  "nat_of_digits s = foldl (\<lambda>n c. 10 * n + (of_char c - 48)) 0 s"

definition head_content_length :: "env \<Rightarrow> string \<Rightarrow> world \<Rightarrow> nat \<times> world" where
  "head_content_length e url w =
     (if \<not> is_valid_image_url (url_parse e) url then (0, w)
      else (let outcome = http_head e (length (requests w)) url;
                w1 = send HEAD url w
            in case outcome of
                 Inl x \<Rightarrow> (0, w1)
               | Inr None \<Rightarrow> (0, w1)
               | Inr (Some cl) \<Rightarrow>
                   (if cl \<noteq> [] \<and> list_all is_digit cl then nat_of_digits cl else 0, w1)))"

section \<open>The concurrent downloader\<close>

text \<open>
  The attempt loop of \<^verbatim>\<open>_wrap_download\<close>, by the attempts left. Each attempt calls
  \<^verbatim>\<open>get_with_retries(sess, url, retries=1, ..)\<close>, opens the destination with mode
  \<^verbatim>\<open>"wb"\<close> (which empties it) and appends the non-empty chunks, counting them in
  \<^verbatim>\<open>written\<close>, which is not reset between attempts, and in the progress bar. Any
  exception is caught, remembered, and followed by \<^verbatim>\<open>sleep(0.6 * attempt)\<close>. Opening
  the destination is taken to succeed, its directory having just been created.
\<close>

fun download_attempts ::
  "env \<Rightarrow> string \<Rightarrow> string \<Rightarrow> nat \<Rightarrow> nat \<Rightarrow> nat \<Rightarrow> exn option \<Rightarrow> world \<Rightarrow>
     (bool \<times> nat \<times> exn option) \<times> world" where
  "download_attempts e url dest attempt 0 written last_err w = ((False, written, last_err), w)"
| "download_attempts e url dest attempt (Suc left) written last_err w =
     (case get_with_retries e url 1 w of
        (Inl x, w1) \<Rightarrow>
          download_attempts e url dest (attempt + 1) left written (Some x)
            (sleep (0.6 * real attempt) w1)
      | (Inr resp, w1) \<Rightarrow>
          (let body = concat (filter (\<lambda>chunk. chunk \<noteq> []) (resp_chunks resp));
               w2 = w1\<lparr>files := write_file dest (Bytes body) (files w1),
                       advanced := advanced w1 + length body\<rparr>;
               written' = written + length body
           in case resp_stream_error resp of
                None \<Rightarrow> ((True, written', last_err), w2)
              | Some x \<Rightarrow>
                  download_attempts e url dest (attempt + 1) left written' (Some x)
                    (sleep (0.6 * real attempt) w2)))"

text \<open>
  \<^verbatim>\<open>_wrap_download(j)\<close> returns \<^verbatim>\<open>(i, dest, ok, written, err)\<close> with
  \<^verbatim>\<open>err = str(last_err)\<close> when not ok, which is \<^verbatim>\<open>"None"\<close> if no attempt was made.
\<close>

definition wrap_download :: "env \<Rightarrow> int \<Rightarrow> job \<Rightarrow> world \<Rightarrow> job_result \<times> world" where
  "wrap_download e max_retries j w =
     (case j of (i, url, dest) \<Rightarrow>
        (case download_attempts e url dest 1 (nat max_retries) 0 None w of
           ((ok, written, last_err), w') \<Rightarrow>
             ((i, dest, ok, written,
               if \<not> ok then Some (case last_err of None \<Rightarrow> ''None'' | Some x \<Rightarrow> exn_str x)
               else None), w')))"

text \<open>
  The two pool phases. The worker threads are modelled one job after the other, in job
  order; each job writes only its own destination.
\<close>

fun estimate_total :: "env \<Rightarrow> job list \<Rightarrow> nat \<Rightarrow> world \<Rightarrow> nat \<times> world" where
  "estimate_total e [] total_est w = (total_est, w)"
| "estimate_total e (j # js) total_est w =
     (case head_content_length e (job_url j) w of
        (sz, w1) \<Rightarrow> estimate_total e js (total_est + sz) w1)"

fun run_downloads :: "env \<Rightarrow> int \<Rightarrow> job list \<Rightarrow> job_result list \<Rightarrow> world \<Rightarrow> job_result list \<times> world" where
  "run_downloads e max_retries [] results w = (results, w)"
| "run_downloads e max_retries (j # js) results w =
     (case wrap_download e max_retries j w of
        (r, w1) \<Rightarrow> run_downloads e max_retries js (results @ [r]) w1)"

text \<open>
  \<^verbatim>\<open>download_images_threaded\<close>. The function has no \<^verbatim>\<open>return\<close> statement: its value
  is Python's \<^verbatim>\<open>None\<close>, here the \<open>None\<close> of an option over result lists so that it can
  be compared with the list the function collects.
\<close>

definition download_images_threaded ::
  "env \<Rightarrow> string list \<Rightarrow> string \<Rightarrow> int \<Rightarrow> bool \<Rightarrow> world \<Rightarrow> job_result list option \<times> world" where
  "download_images_threaded e image_urls out_dir max_retries verbose w =
     (let jobs = build_jobs (url_parse e) out_dir image_urls;
          w1 = (if verbose \<and> jobs \<noteq> []
                then say (ImagesExtracted (map (\<lambda>j. (job_idx j, job_url j)) jobs)) w else w)
      in case estimate_total e jobs 0 w1 of
           (total_est, w2) \<Rightarrow>
             (case run_downloads e max_retries jobs [] w2 of
                (results, w3) \<Rightarrow>
                  (let w4 = (if verbose \<and> results \<noteq> []
                             then say (DownloadResults (sort_key fst results)) w3 else w3)
                   in (None, say (FilesProcessed (length results) out_dir) w4))))"

text \<open>The list \<^verbatim>\<open>results\<close> the function holds when it prints its last line.\<close>

definition collected_results ::
  "env \<Rightarrow> string list \<Rightarrow> string \<Rightarrow> int \<Rightarrow> bool \<Rightarrow> world \<Rightarrow> job_result list" where
  "collected_results e image_urls out_dir max_retries verbose w =
     (let jobs = build_jobs (url_parse e) out_dir image_urls;
          w1 = (if verbose \<and> jobs \<noteq> []
                then say (ImagesExtracted (map (\<lambda>j. (job_idx j, job_url j)) jobs)) w else w)
      in case estimate_total e jobs 0 w1 of
           (total_est, w2) \<Rightarrow> fst (run_downloads e max_retries jobs [] w2))"

section \<open>The document assembler\<close>

text \<open>
  \<^verbatim>\<open>os.listdir(folder)\<close> restricted to regular files: the names of the files directly
  inside the folder. \<^verbatim>\<open>os.path.splitext(p)[0]\<close> is what is left of \<open>p\<close> before its
  extension.
\<close>

definition listdir :: "string \<Rightarrow> world \<Rightarrow> string list" where
  "listdir folder w =
     (let pre = path_join folder []
      in map (\<lambda>p. drop (length pre) p)
           (filter (\<lambda>p. startswith p pre \<and> drop (length pre) p \<noteq> [] \<and>
                         CHR ''/'' \<notin> set (drop (length pre) p))
              (map fst (files w))))"

definition splitext_root :: "string \<Rightarrow> string" where
  "splitext_root p = take (length p - length (splitext_ext p)) p"

text \<open>
  The normalisation loop of \<^verbatim>\<open>images_to_pdf\<close>: JPEG and PNG files are taken as they
  are; any other file is converted and saved under \<^verbatim>\<open>_converted\<close>, and skipped when
  that raises.
\<close>

fun normalise :: "env \<Rightarrow> string \<Rightarrow> string list \<Rightarrow> string list \<Rightarrow> world \<Rightarrow> string list \<times> world" where
  "normalise e convert_dir [] out_files w = (out_files, w)"
| "normalise e convert_dir (p # ps) out_files w =
     (let ext = lower (splitext_ext p)
      in if ext \<in> set [''.jpg'', ''.jpeg'', ''.png'']
         then normalise e convert_dir ps (out_files @ [p]) w
         else (case map_of (files w) p of
                 Some (Bytes b) \<Rightarrow>
                   (case to_jpeg e b of
                      Some jpeg \<Rightarrow>
                        (let base = splitext_root (basename p);
                             dest = path_join convert_dir (base @ ''.jpg'')
                         in normalise e convert_dir ps (out_files @ [dest])
                              (w\<lparr>files := write_file dest (Bytes jpeg) (files w)\<rparr>))
                    | None \<Rightarrow> normalise e convert_dir ps out_files w)
               | _ \<Rightarrow> normalise e convert_dir ps out_files w))"

text \<open>
  \<^verbatim>\<open>img2pdf.convert(out_files, layout_fun=layout_fun_fixed_width, ..)\<close>: one page per
  file, with the geometry the layout function gives for the size and DPI read from the
  file; a file that is not an image makes the call raise.
\<close>

fun convert_pages :: "env \<Rightarrow> world \<Rightarrow> string list \<Rightarrow> exn + (string \<times> geometry) list" where
  "convert_pages e w [] = Inr []"
| "convert_pages e w (p # ps) =
     (case map_of (files w) p of
        Some (Bytes b) \<Rightarrow>
          (case image_info e b of
             None \<Rightarrow> Inl (OtherException ''cannot read image'')
           | Some (width, height, ndpi) \<Rightarrow>
               (case layout_fun_fixed_width width height ndpi of
                  Inl err \<Rightarrow> Inl (OtherException ''division by zero'')
                | Inr g \<Rightarrow>
                    (case convert_pages e w ps of
                       Inl x \<Rightarrow> Inl x
                     | Inr pages \<Rightarrow> Inr ((p, g) # pages))))
      | _ \<Rightarrow> Inl (OtherException ''cannot read image''))"

definition supported_exts :: "string list" where
  "supported_exts = [''.jpg'', ''.jpeg'', ''.png'', ''.webp'']"

definition src_files_of :: "string \<Rightarrow> world \<Rightarrow> string list" where
  "src_files_of image_folder w =
     sort (map (path_join image_folder)
             (filter (\<lambda>f. endswith_any (lower f) supported_exts) (listdir image_folder w)))"

text \<open>
  \<^verbatim>\<open>images_to_pdf\<close>. The output is opened for writing, hence emptied, before
  \<^verbatim>\<open>img2pdf.convert\<close> is evaluated.
\<close>

definition images_to_pdf :: "env \<Rightarrow> string \<Rightarrow> string \<Rightarrow> world \<Rightarrow> (exn + bool) \<times> world" where
  "images_to_pdf e image_folder output_pdf w =
     (let src_files = src_files_of image_folder w
      in if src_files = [] then (Inr False, say (NoImagesIn image_folder) w)
         else (let convert_dir = path_join image_folder ''_converted''
               in case normalise e convert_dir src_files [] w of
                    (out_files, w1) \<Rightarrow>
                      if out_files = [] then (Inr False, say (NoConvertibleImagesIn image_folder) w1)
                      else (let w2 = w1\<lparr>files := write_file output_pdf (Bytes []) (files w1)\<rparr>
                            in case convert_pages e w2 out_files of
                                 Inl x \<Rightarrow> (Inl x, w2)
                               | Inr pages \<Rightarrow>
                                   (Inr True,
                                    say (PdfSaved output_pdf)
                                      (w2\<lparr>files := write_file output_pdf (Pdf pages) (files w2)\<rparr>)))))"

section \<open>Scraping\<close>

text \<open>\<^verbatim>\<open>"Total chapters" in text\<close>: substring test.\<close>

definition contains :: "string \<Rightarrow> string \<Rightarrow> bool" where
  "contains s t = list_ex (\<lambda>k. startswith (drop k s) t) [0..<Suc (length s)]"

text \<open>
  The loop of \<^verbatim>\<open>get_total_chapters\<close> over the matching divs: the first one with at
  least two spans, the first mentioning \<open>Total chapters\<close> and the second readable as an
  integer, decides.
\<close>

fun find_total :: "env \<Rightarrow> string list list \<Rightarrow> int option" where
  "find_total e [] = None"
| "find_total e (spans # divs) =
     (if length spans \<ge> 2 \<and> contains (spans ! 0) ''Total chapters''
      then (case int_of_text e (spans ! 1) of
              Some n \<Rightarrow> Some n
            | None \<Rightarrow> find_total e divs)
      else find_total e divs)"

definition get_total_chapters :: "env \<Rightarrow> string \<Rightarrow> world \<Rightarrow> (exn + int option) \<times> world" where
  "get_total_chapters e url w =
     (case get_with_retries e url 3 w of
        (Inl (RequestException m), w1) \<Rightarrow> (Inr None, say (ErrorFetchingPage m) w1)
      | (Inl (OtherException m), w1) \<Rightarrow> (Inl (OtherException m), w1)
      | (Inr resp, w1) \<Rightarrow> (Inr (find_total e (total_divs e (resp_text resp))), w1))"

text \<open>
  The image loop of \<^verbatim>\<open>extract_chapter_images\<close>:
  \<^verbatim>\<open>src = (img.get("data-src") or img.get("src") or "").strip()\<close>, kept when it is not
  empty and starts, in lower case, with \<^verbatim>\<open>http://\<close> or \<^verbatim>\<open>https://\<close>.
\<close>

definition truthy :: "string option \<Rightarrow> bool" where
  "truthy v = (case v of None \<Rightarrow> False | Some s \<Rightarrow> s \<noteq> [])"

definition img_src :: "string option \<times> string option \<Rightarrow> string" where
  "img_src img =
     strip (if truthy (fst img) then the (fst img)
            else if truthy (snd img) then the (snd img) else [])"

definition collect_image_urls :: "(string option \<times> string option) list \<Rightarrow> string list" where
  "collect_image_urls imgs =
     filter (\<lambda>src. src \<noteq> [] \<and> startswith_any (lower src) [''http://'', ''https://''])
       (map img_src imgs)"

definition extract_chapter_images :: "env \<Rightarrow> string \<Rightarrow> world \<Rightarrow> (exn + string list) \<times> world" where
  "extract_chapter_images e chapter_url w =
     (case get_with_retries e chapter_url 3 w of
        (Inl (RequestException m), w1) \<Rightarrow> (Inr [], say (ErrorFetchingChapter m) w1)
      | (Inl (OtherException m), w1) \<Rightarrow> (Inl (OtherException m), w1)
      | (Inr resp, w1) \<Rightarrow>
          (case content_imgs e (resp_text resp) of
             None \<Rightarrow> (Inr [], say (NoContentDiv chapter_url) w1)
           | Some imgs \<Rightarrow> (Inr (collect_image_urls imgs), w1)))"

section \<open>Series directories and chapter labels\<close>

definition derive_series_name :: "url_parser \<Rightarrow> string \<Rightarrow> string option \<Rightarrow> string" where
  "derive_series_name urlparse any_url override =
     (if truthy override then sanitize_name (the override)
      else (let p = rstrip_slash (path (urlparse any_url));
                name = (if last_segment p = [] then ''series'' else last_segment p)
            in sanitize_name name))"

text \<open>
  \<^verbatim>\<open>re.search(r"(?:^|/)(?:chapter|chap|ch)[-_/]?(\d+)(?:/|$)", chapter_url, re.IGNORECASE)\<close>.
  \<open>match_label t\<close> matches the pattern after its first group at the start of \<open>t\<close>: one
  of the three words in any letter case, at most one separator, then digits up to a
  slash or the end of the text (\<^verbatim>\<open>$\<close> also matches before a final newline). The search
  tries the start of the address, then each position after a slash, from the left.
\<close>

definition after_keyword :: "string \<Rightarrow> string option" where
  "after_keyword t =
     (if lower (take 7 t) = ''chapter'' then Some (drop 7 t)
      else if lower (take 4 t) = ''chap'' then Some (drop 4 t)
      else if lower (take 2 t) = ''ch'' then Some (drop 2 t)
      else None)"

definition digits_to_boundary :: "string \<Rightarrow> string option" where
  "digits_to_boundary t =
     (let ds = takeWhile is_digit t; rest = dropWhile is_digit t
      in if ds \<noteq> [] \<and> (rest = [] \<or> hd rest = CHR ''/'' \<or> rest = [CHR 0x0A]) then Some ds
         else None)"

definition match_label :: "string \<Rightarrow> string option" where
  "match_label t =
     (case after_keyword t of
        None \<Rightarrow> None
      | Some r \<Rightarrow>
          (if r \<noteq> [] \<and> hd r \<in> set ''-_/'' then digits_to_boundary (tl r)
           else digits_to_boundary r))"

fun search_after_slash :: "string \<Rightarrow> string option" where
  "search_after_slash [] = None"
| "search_after_slash (c # cs) =
     (if c = CHR ''/''
      then (case match_label cs of Some g \<Rightarrow> Some g | None \<Rightarrow> search_after_slash cs)
      else search_after_slash cs)"

definition chapter_label_from_url :: "string \<Rightarrow> string option" where
  "chapter_label_from_url chapter_url =
     (case match_label chapter_url of
        Some g \<Rightarrow> Some g
      | None \<Rightarrow> search_after_slash chapter_url)"

definition chapter_dir :: "string \<Rightarrow> string \<Rightarrow> string" where
  "chapter_dir series_root label = path_join (path_join series_root ''Images'') (''chapter-'' @ label)"

definition chapter_pdf :: "string \<Rightarrow> string \<Rightarrow> string" where
  "chapter_pdf series_root label =
     path_join (path_join series_root ''Chapters'') (''chapter-'' @ label @ ''.pdf'')"

section \<open>Workflows\<close>

text \<open>
  What both workflows do with a chapter that is not skipped: extract the image
  addresses, and unless there are none, download them and assemble the document. An
  exception that nothing catches ends the workflow.
\<close>

definition fetch_and_assemble ::
  "env \<Rightarrow> message \<Rightarrow> string \<Rightarrow> string \<Rightarrow> string \<Rightarrow> int \<Rightarrow> bool \<Rightarrow> world \<Rightarrow> (exn + unit) \<times> world" where
  "fetch_and_assemble e no_images chapter_url img_dir pdf_path max_retries verbose w =
     (case extract_chapter_images e chapter_url w of
        (Inl x, w1) \<Rightarrow> (Inl x, w1)
      | (Inr images, w1) \<Rightarrow>
          if images = [] then (Inr (), say no_images w1)
          else (case download_images_threaded e images img_dir max_retries verbose w1 of
                  (r, w2) \<Rightarrow>
                    (case images_to_pdf e img_dir pdf_path w2 of
                       (Inl x, w3) \<Rightarrow> (Inl x, w3)
                     | (Inr done, w3) \<Rightarrow> (Inr (), w3))))"

text \<open>One round of the chapter loop of \<^verbatim>\<open>run_bulk\<close>, and the loop.\<close>

definition bulk_chapter ::
  "env \<Rightarrow> string \<Rightarrow> bool \<Rightarrow> int \<Rightarrow> bool \<Rightarrow> nat \<times> string \<Rightarrow> world \<Rightarrow> (exn + unit) \<times> world" where
  "bulk_chapter e series_dir force max_retries verbose ic w =
     (case ic of (idx, chapter_url) \<Rightarrow>
        (let label = str_nat idx;
             pdf_path = chapter_pdf series_dir label
         in if path_exists w pdf_path \<and> \<not> force
            then (Inr (), say (ChapterExists label pdf_path) w)
            else fetch_and_assemble e (NoImagesForChapter label) chapter_url
                   (chapter_dir series_dir label) pdf_path max_retries verbose
                   (say (ProcessingChapter label chapter_url) w)))"

fun bulk_loop ::
  "env \<Rightarrow> string \<Rightarrow> bool \<Rightarrow> int \<Rightarrow> bool \<Rightarrow> (nat \<times> string) list \<Rightarrow> world \<Rightarrow> (exn + unit) \<times> world" where
  "bulk_loop e series_dir force max_retries verbose [] w = (Inr (), w)"
| "bulk_loop e series_dir force max_retries verbose (ic # ics) w =
     (case bulk_chapter e series_dir force max_retries verbose ic w of
        (Inl x, w1) \<Rightarrow> (Inl x, w1)
      | (Inr u, w1) \<Rightarrow> bulk_loop e series_dir force max_retries verbose ics w1)"

definition run_bulk ::
  "env \<Rightarrow> string \<Rightarrow> string option \<Rightarrow> bool \<Rightarrow> int \<Rightarrow> bool \<Rightarrow> world \<Rightarrow> (exn + unit) \<times> world" where
  "run_bulk e series_url series_name force max_retries verbose w =
     (let series_dir = derive_series_name (url_parse e) series_url series_name;
          w0 = say (Setup series_dir) w
      in case get_total_chapters e (rstrip_slash series_url) w0 of
           (Inl x, w1) \<Rightarrow> (Inl x, w1)
         | (Inr found, w1) \<Rightarrow>
             (if found = None \<or> found = Some 0 then (Inr (), say CouldNotDetermineTotal w1)
              else (let chapter_urls = generate_chapter_urls series_url (the found)
                    in bulk_loop e series_dir force max_retries verbose
                         (enumerate1 chapter_urls) (say (TotalChaptersFound (the found)) w1))))"

text \<open>
  \<^verbatim>\<open>run_single\<close>, with
  \<^verbatim>\<open>label = chapter_num or chapter_label_from_url(chapter_url) or "custom"\<close>.
\<close>

definition single_label :: "string \<Rightarrow> string option \<Rightarrow> string" where
  "single_label chapter_url chapter_num =
     (if truthy chapter_num then the chapter_num
      else if truthy (chapter_label_from_url chapter_url) then the (chapter_label_from_url chapter_url)
      else ''custom'')"

definition run_single ::
  "env \<Rightarrow> string \<Rightarrow> string option \<Rightarrow> string option \<Rightarrow> bool \<Rightarrow> int \<Rightarrow> bool \<Rightarrow> world \<Rightarrow>
     (exn + unit) \<times> world" where
  "run_single e chapter_url series_name chapter_num force max_retries verbose w =
     (let series_dir = derive_series_name (url_parse e) chapter_url series_name;
          label = single_label chapter_url chapter_num;
          pdf_path = chapter_pdf series_dir label
      in if path_exists w pdf_path \<and> \<not> force
         then (Inr (), say (ChapterExists label pdf_path) w)
         else fetch_and_assemble e NoImagesFound chapter_url
                (chapter_dir series_dir label) pdf_path max_retries verbose
                (say (ProcessingSingle label chapter_url) w))"

section \<open>A concrete environment for the examples\<close>

text \<open>
  A small run used by the examples below. The first image address is served in three
  chunks; the second always answers with an HTTP error; the third breaks off after one
  chunk, every time. The chapter page lists these three addresses and a relative icon.
  The byte strings are placeholders: every one of them is taken to begin with an image
  header that img2pdf can read, of 800 by 1200 pixels and no stated DPI.
\<close>

definition world_empty :: world where
  "world_empty = \<lparr>files = [], requests = [], slept = [], console = [], advanced = 0\<rparr>"

definition env_examples :: env where
  "env_examples =
     \<lparr>http_get = (\<lambda>n url.
        if url = ''https://cdn.example/a/p1.PNG''
        then Inr \<lparr>resp_text = [], resp_chunks = [''abc'', [], ''de''], resp_stream_error = None\<rparr>
        else if url = ''https://cdn.example/a/p3''
        then Inr \<lparr>resp_text = [], resp_chunks = [''xy''],
                  resp_stream_error = Some (RequestException ''connection broken'')\<rparr>
        else if url = ''https://x.org/series/foo/chapter-5''
        then Inr \<lparr>resp_text = ''page 5'', resp_chunks = [], resp_stream_error = None\<rparr>
        else Inl (RequestException ''503 Server Error'')),
      http_head = (\<lambda>n url.
        if url = ''https://cdn.example/a/p1.PNG'' then Inr (Some ''5'')
        else Inl (RequestException ''503 Server Error'')),
      url_parse = urlparse_examples,
      total_divs = (\<lambda>text. []),
      int_of_text = (\<lambda>text. None),
      content_imgs = (\<lambda>text.
        if text = ''page 5''
        then Some [(Some ''https://cdn.example/a/p1.PNG'', None),
                   (None, Some ''/icon.png''),
                   (None, Some ''http://cdn.example/a/p2.webp?x=1''),
                   (Some [], Some ''https://cdn.example/a/p3'')]
        else None),
      to_jpeg = (\<lambda>b. None),
      image_info = (\<lambda>b. Some (800, 1200, None))\<rparr>"


section \<open>Describing the attempts of a job\<close>

text \<open>
  For stating what a job does: an attempt fails either at the request (no response was
  obtained) or in the stream (the response broke off). \<open>attempt_failure e n url\<close> reads
  the outcome of request number \<open>n\<close>; \<open>leading_failures e url n k\<close> lists the failures
  of the attempts sent as requests \<open>n\<close>, \<open>n + 1\<close>, ... up to the first success, among at
  most \<open>k\<close> attempts. \<open>waits_after\<close> gives the sleeps that follow failed attempt number
  \<open>k\<close>: the 0.6 s of the single-attempt call of \<^verbatim>\<open>get_with_retries\<close> when that call
  caught a \<^verbatim>\<open>RequestException\<close>, then the \<open>0.6 * k\<close> of the job's own loop.
\<close>

datatype failure = AtRequest exn | InStream exn

fun failure_exn :: "failure \<Rightarrow> exn" where
  "failure_exn (AtRequest x) = x"
| "failure_exn (InStream x) = x"

definition attempt_failure :: "env \<Rightarrow> nat \<Rightarrow> string \<Rightarrow> failure option" where
  "attempt_failure e n url =
     (case http_get e n url of
        Inl x \<Rightarrow> Some (AtRequest x)
      | Inr resp \<Rightarrow> map_option InStream (resp_stream_error resp))"

fun leading_failures :: "env \<Rightarrow> string \<Rightarrow> nat \<Rightarrow> nat \<Rightarrow> failure list" where
  "leading_failures e url n 0 = []"
| "leading_failures e url n (Suc left) =
     (case attempt_failure e n url of
        None \<Rightarrow> []
      | Some f \<Rightarrow> f # leading_failures e url (Suc n) left)"

fun waits_after :: "nat \<times> failure \<Rightarrow> real list" where
  "waits_after (k, AtRequest (RequestException m)) = [0.6 * 1, 0.6 * real k]"
| "waits_after (k, AtRequest (OtherException m)) = [0.6 * real k]"
| "waits_after (k, InStream x) = [0.6 * real k]"

text \<open>The failures of a job that starts in the world \<open>w\<close> with \<open>max_retries\<close> attempts allowed.\<close>

definition job_failures :: "env \<Rightarrow> int \<Rightarrow> string \<Rightarrow> world \<Rightarrow> failure list" where
  "job_failures e max_retries url w = leading_failures e url (length (requests w)) (nat max_retries)"

section \<open>Properties of the string primitives and of the enumeration\<close>

lemma endswith_single: "endswith s [c] \<longleftrightarrow> s \<noteq> [] \<and> last s = c"
proof (cases s rule: rev_cases)
  case Nil
  then show ?thesis by (simp add: endswith_def)
next
  case (snoc ys y)
  then show ?thesis by (simp add: endswith_def)
qed

lemma rstrip_slash_decomp: "\<exists>k. s = rstrip_slash s @ replicate k CHR ''/''"
proof -
  let ?t = "takeWhile (\<lambda>c. c = CHR ''/'') (rev s)"
  have "rev s = ?t @ dropWhile (\<lambda>c. c = CHR ''/'') (rev s)"
    by simp
  then have "s = rstrip_slash s @ rev ?t"
    unfolding rstrip_slash_def by (metis rev_append rev_rev_ident)
  moreover have "\<forall>c\<in>set (rev ?t). c = CHR ''/''"
    by (auto dest: set_takeWhileD)
  then have "rev ?t = replicate (length (rev ?t)) CHR ''/''"
    by (metis replicate_eqI)
  ultimately show ?thesis by metis
qed

lemma rstrip_slash_no_trailing: "\<not> endswith (rstrip_slash s) ''/''"
proof -
  let ?t = "dropWhile (\<lambda>c. c = CHR ''/'') (rev s)"
  have "?t \<noteq> [] \<Longrightarrow> hd ?t \<noteq> CHR ''/''"
    using hd_dropWhile[of "\<lambda>c. c = CHR ''/''" "rev s"] by simp
  then show ?thesis
    by (auto simp: endswith_single rstrip_slash_def last_rev)
qed

lemma upto_1_int: "[1..int n] = map int [1..<Suc n]"
proof (induction n)
  case 0
  then show ?case by simp
next
  case (Suc n)
  have "[1..int (Suc n)] = [1..int n] @ [int (Suc n)]"
    using upto_rec2[of 1 "int (Suc n)"] by simp
  with Suc show ?case by simp
qed

lemma zip_map_same: "zip xs (map f xs) = map (\<lambda>x. (x, f x)) xs"
  by (induction xs) auto

lemma labelled_chapters_nat:
  "labelled_chapters base (int n) =
     map (\<lambda>k. (str_nat k, rstrip_slash base @ ''/chapter-'' @ str_nat k)) [1..<Suc n]"
  by (simp add: labelled_chapters_def enumerate1_def generate_chapter_urls_def upto_1_int
      zip_map_same str_int_def del: upt_Suc)

text \<open>
  Claim C6. For a positive chapter count \<open>N\<close> the enumeration has exactly \<open>N\<close> entries,
  in increasing order: entry \<open>i\<close> carries the label \<open>str(i)\<close> and the address made of the
  base address without its trailing slashes followed by \<open>/chapter-i\<close>. Being a function of
  its two arguments, the enumeration is deterministic and touches no state.
\<close>

theorem labelled_chapters_enumeration:
  assumes "0 < N"
  shows "length (labelled_chapters base N) = nat N \<and>
     labelled_chapters base N =
       map (\<lambda>i. (str_int i, rstrip_slash base @ ''/chapter-'' @ str_int i)) [1..N] \<and>
     (\<forall>i. 1 \<le> i \<and> i \<le> N \<longrightarrow>
        labelled_chapters base N ! (nat i - 1) =
          (str_int i, rstrip_slash base @ ''/chapter-'' @ str_int i)) \<and>
     \<not> endswith (rstrip_slash base) ''/'' \<and>
     (\<exists>k. base = rstrip_slash base @ replicate k CHR ''/'')"
proof -
  obtain n where N: "N = int n"
    using assms by (metis nat_0_le order_less_imp_le)
  have eq: "labelled_chapters base N =
       map (\<lambda>i. (str_int i, rstrip_slash base @ ''/chapter-'' @ str_int i)) [1..N]"
    unfolding N labelled_chapters_nat upto_1_int by (simp add: str_int_def del: upt_Suc)
  have len: "length (labelled_chapters base N) = nat N"
    unfolding N labelled_chapters_nat by simp
  have nth: "labelled_chapters base N ! (nat i - 1) =
          (str_int i, rstrip_slash base @ ''/chapter-'' @ str_int i)"
    if "1 \<le> i \<and> i \<le> N" for i
  proof -
    have "nat i - 1 < n" using that N by linarith
    then have "labelled_chapters base N ! (nat i - 1) =
       (str_nat (Suc (nat i - 1)), rstrip_slash base @ ''/chapter-'' @ str_nat (Suc (nat i - 1)))"
      unfolding N labelled_chapters_nat by (simp del: upt_Suc)
    moreover have "Suc (nat i - 1) = nat i" using that by linarith
    ultimately show ?thesis using that by (simp add: str_int_def)
  qed
  show ?thesis
    using eq len nth rstrip_slash_no_trailing rstrip_slash_decomp by blast
qed

theorem labelled_chapters_enumeration_witness:
  "(0::int) < 3 \<and> labelled_chapters ''https://x.org/series/foo//'' 3 =
     [(''1'', ''https://x.org/series/foo/chapter-1''),
      (''2'', ''https://x.org/series/foo/chapter-2''),
      (''3'', ''https://x.org/series/foo/chapter-3'')]"
proof -
  have h: "(0::int) < 3" by simp
  have "labelled_chapters ''https://x.org/series/foo//'' 3 =
       map (\<lambda>i. (str_int i, rstrip_slash ''https://x.org/series/foo//'' @ ''/chapter-'' @ str_int i)) [1..3]"
    using labelled_chapters_enumeration[OF h, of "''https://x.org/series/foo//''"] by blast
  also have "\<dots> = [(''1'', ''https://x.org/series/foo/chapter-1''),
      (''2'', ''https://x.org/series/foo/chapter-2''),
      (''3'', ''https://x.org/series/foo/chapter-3'')]"
    by (simp add: upto.simps str_int_def str_nat.simps digit_char_def rstrip_slash_def)
  finally show ?thesis by simp
qed

section \<open>Name sanitization\<close>

lemma safe_underscore: "safe_char CHR ''_''"
  by (simp add: safe_char_def)

lemma sub_unsafe_safe: "c \<in> set (sub_unsafe s) \<Longrightarrow> safe_char c"
  by (induction s rule: sub_unsafe.induct) (auto simp: safe_underscore split: if_splits)

lemma set_strip: "set (strip s) \<subseteq> set s"
  unfolding strip_def by (auto dest!: set_dropWhileD)

lemma sub_unsafe_id: "\<forall>c\<in>set s. safe_char c \<Longrightarrow> sub_unsafe s = s"
  by (induction s) auto

lemma sub_unsafe_replace_each:
  "\<forall>i. Suc i < length s \<longrightarrow> safe_char (s ! i) \<or> safe_char (s ! Suc i) \<Longrightarrow>
   sub_unsafe s = replace_each s"
proof (induction s rule: sub_unsafe.induct)
  case 1
  then show ?case by (simp add: replace_each_def)
next
  case (2 c cs)
  have tl: "\<forall>i. Suc i < length cs \<longrightarrow> safe_char (cs ! i) \<or> safe_char (cs ! Suc i)"
    using 2(3) by (metis Suc_less_eq length_Cons nth_Cons_Suc)
  show ?case
  proof (cases "safe_char c")
    case True
    then show ?thesis using 2(1) tl by (simp add: replace_each_def)
  next
    case False
    have "cs = [] \<or> safe_char (hd cs)"
    proof (cases cs)
      case Nil then show ?thesis by simp
    next
      case (Cons d ds)
      then show ?thesis using 2(3)[rule_format, of 0] False by simp
    qed
    then have dw: "dropWhile (\<lambda>d. \<not> safe_char d) cs = cs"
      by (cases cs) auto
    show ?thesis using False 2(2) tl dw by (simp add: replace_each_def)
  qed
qed

lemma sub_unsafe_run:
  assumes "u \<noteq> []" "\<forall>c\<in>set u. \<not> safe_char c"
    and "a = [] \<or> safe_char (last a)" and "b = [] \<or> safe_char (hd b)"
  shows "sub_unsafe (a @ u @ b) = sub_unsafe a @ ''_'' @ sub_unsafe b"
  using assms(3)
proof (induction a rule: sub_unsafe.induct)
  case 1
  obtain c u' where u: "u = c # u'" using assms(1) by (cases u) auto
  have "dropWhile (\<lambda>d. \<not> safe_char d) (u' @ b) = b"
    using assms(2,4) u by (cases b) (auto simp: dropWhile_append3 dropWhile_append)
  then show ?case using u assms(2) by simp
next
  case (2 c cs)
  show ?case
  proof (cases "safe_char c")
    case True
    have "cs = [] \<or> safe_char (last cs)" using 2(3) by (auto split: if_splits)
    then show ?thesis using True 2(1) by simp
  next
    case False
    then have ne: "cs \<noteq> []" using 2(3) by auto
    then have l: "safe_char (last cs)" using 2(3) by simp
    then have ex: "\<exists>x\<in>set cs. safe_char x" using ne by (meson last_in_set)
    obtain x where x: "x \<in> set cs" "\<not> \<not> safe_char x" using ex by auto
    have dw: "dropWhile (\<lambda>d. \<not> safe_char d) (cs @ u @ b) = dropWhile (\<lambda>d. \<not> safe_char d) cs @ u @ b"
      using x by (rule dropWhile_append1)
    have ne': "dropWhile (\<lambda>d. \<not> safe_char d) cs \<noteq> []"
      using ex by (simp add: dropWhile_eq_Nil_conv)
    have "last (dropWhile (\<lambda>d. \<not> safe_char d) cs) = last cs"
      using ne' by (metis last_appendR takeWhile_dropWhile_id)
    then have "safe_char (last (dropWhile (\<lambda>d. \<not> safe_char d) cs))" using l by simp
    then show ?thesis using False 2(2) dw by simp
  qed
qed

text \<open>
  Claim C9, as amended. The sanitized name is never empty and consists of characters of
  the class \<open>[A-Za-z0-9 _-]\<close> only. It is the substituted string with surrounding
  whitespace stripped, or \<open>series\<close> when nothing is left. The substitution leaves a
  string of class characters alone and replaces each maximal run of characters outside
  the class by a single underscore. Where no two characters outside the class are
  adjacent and the input neither starts nor ends with whitespace, the result is the
  one-for-one replacement of the specification and has the length of the input.
\<close>

theorem sanitize_name_runs:
  "sanitize_name s \<noteq> [] \<and>
   (\<forall>c\<in>set (sanitize_name s). safe_char c) \<and>
   sanitize_name s = (if strip (sub_unsafe s) = [] then ''series'' else strip (sub_unsafe s)) \<and>
   ((\<forall>c\<in>set s. safe_char c) \<longrightarrow> sub_unsafe s = s) \<and>
   (\<forall>a u b. u \<noteq> [] \<and> (\<forall>c\<in>set u. \<not> safe_char c) \<and> s = a @ u @ b \<and>
        (a = [] \<or> safe_char (last a)) \<and> (b = [] \<or> safe_char (hd b)) \<longrightarrow>
        sub_unsafe s = sub_unsafe a @ ''_'' @ sub_unsafe b) \<and>
   ((\<forall>i. Suc i < length s \<longrightarrow> safe_char (s ! i) \<or> safe_char (s ! Suc i)) \<and>
      s \<noteq> [] \<and> \<not> is_space (hd s) \<and> \<not> is_space (last s) \<longrightarrow>
      sanitize_name s = sanitize_name_spec s \<and> length (sanitize_name s) = length s)"
proof -
  have ne: "sanitize_name s \<noteq> []"
    by (simp add: sanitize_name_def Let_def)
  have cls: "\<forall>c\<in>set (sanitize_name s). safe_char c"
  proof
    fix c assume c: "c \<in> set (sanitize_name s)"
    show "safe_char c"
    proof (cases "strip (sub_unsafe s) = []")
      case True
      then have "c \<in> set ''series''" using c by (simp add: sanitize_name_def)
      moreover have "\<forall>d\<in>set ''series''. safe_char d" by (simp add: safe_char_def)
      ultimately show ?thesis by blast
    next
      case False
      then have "c \<in> set (sub_unsafe s)"
        using c set_strip[of "sub_unsafe s"] by (auto simp: sanitize_name_def Let_def)
      then show ?thesis by (rule sub_unsafe_safe)
    qed
  qed
  have unf: "sanitize_name s = (if strip (sub_unsafe s) = [] then ''series'' else strip (sub_unsafe s))"
    by (simp add: sanitize_name_def Let_def)
  have agree: "sanitize_name s = sanitize_name_spec s \<and> length (sanitize_name s) = length s"
    if h: "(\<forall>i. Suc i < length s \<longrightarrow> safe_char (s ! i) \<or> safe_char (s ! Suc i)) \<and>
      s \<noteq> [] \<and> \<not> is_space (hd s) \<and> \<not> is_space (last s)"
  proof -
    have eq: "sub_unsafe s = replace_each s" using h by (intro sub_unsafe_replace_each) simp
    have us: "\<not> is_space CHR ''_''" by (simp add: is_space_def)
    have sne: "s \<noteq> []" and hs: "\<not> is_space (hd s)" and ls: "\<not> is_space (last s)"
      using h by blast+
    have "hd (replace_each s) = (if safe_char (hd s) then hd s else CHR ''_'')"
      using sne by (simp add: replace_each_def hd_map)
    then have hd: "\<not> is_space (hd (replace_each s))"
      using hs us by simp
    have "last (replace_each s) = (if safe_char (last s) then last s else CHR ''_'')"
      using sne by (simp add: replace_each_def last_map)
    then have la: "\<not> is_space (last (replace_each s))"
      using ls us by simp
    have ne: "replace_each s \<noteq> []" using sne by (simp add: replace_each_def)
    have "dropWhile is_space (replace_each s) = replace_each s"
      using hd ne by (cases "replace_each s") auto
    moreover have "dropWhile is_space (rev (replace_each s)) = rev (replace_each s)"
      using la ne by (cases "replace_each s" rule: rev_cases) auto
    ultimately have "strip (replace_each s) = replace_each s"
      by (simp add: strip_def)
    then have "sanitize_name s = sanitize_name_spec s" using eq ne
      by (simp add: sanitize_name_def sanitize_name_spec_def Let_def)
    moreover have "length (sanitize_name_spec s) = length s" using ne
      by (simp add: sanitize_name_spec_def Let_def) (simp add: replace_each_def)
    ultimately show ?thesis by simp
  qed
  have run: "\<forall>a u b. u \<noteq> [] \<and> (\<forall>c\<in>set u. \<not> safe_char c) \<and> s = a @ u @ b \<and>
        (a = [] \<or> safe_char (last a)) \<and> (b = [] \<or> safe_char (hd b)) \<longrightarrow>
        sub_unsafe s = sub_unsafe a @ ''_'' @ sub_unsafe b"
  proof (intro allI impI)
    fix a u b
    assume "u \<noteq> [] \<and> (\<forall>c\<in>set u. \<not> safe_char c) \<and> s = a @ u @ b \<and>
        (a = [] \<or> safe_char (last a)) \<and> (b = [] \<or> safe_char (hd b))"
    then show "sub_unsafe s = sub_unsafe a @ ''_'' @ sub_unsafe b"
      using sub_unsafe_run[of u a b] by simp
  qed
  have idm: "(\<forall>c\<in>set s. safe_char c) \<longrightarrow> sub_unsafe s = s"
    using sub_unsafe_id by blast
  have agree': "(\<forall>i. Suc i < length s \<longrightarrow> safe_char (s ! i) \<or> safe_char (s ! Suc i)) \<and>
      s \<noteq> [] \<and> \<not> is_space (hd s) \<and> \<not> is_space (last s) \<longrightarrow>
      sanitize_name s = sanitize_name_spec s \<and> length (sanitize_name s) = length s"
    using agree by (rule impI)
  show ?thesis
    using ne cls unf idm run agree' by (intro conjI)
qed

theorem sanitize_name_runs_witness:
  "sanitize_name ''a:b'' = ''a_b'' \<and>
   sanitize_name ''a:b'' = sanitize_name_spec ''a:b'' \<and>
   length (sanitize_name ''a:b'') = length ''a:b'' \<and>
   sub_unsafe (''a'' @ ''!?'' @ ''b'') = sub_unsafe ''a'' @ ''_'' @ sub_unsafe ''b'' \<and>
   sub_unsafe ''ab'' = ''ab''"
proof -
  let ?s = "''a:b''"
  have adj: "\<forall>i. Suc i < length ?s \<longrightarrow> safe_char (?s ! i) \<or> safe_char (?s ! Suc i)"
  proof (intro allI impI)
    fix i assume "Suc i < length ?s"
    then have "i = 0 \<or> i = 1" by auto
    then show "safe_char (?s ! i) \<or> safe_char (?s ! Suc i)"
      by (auto simp: safe_char_def)
  qed
  have ends: "?s \<noteq> [] \<and> \<not> is_space (hd ?s) \<and> \<not> is_space (last ?s)"
    by (simp add: is_space_def)
  note t = sanitize_name_runs[of ?s]
  have a: "sanitize_name ?s = sanitize_name_spec ?s \<and> length (sanitize_name ?s) = length ?s"
    using t adj ends by blast
  have b: "sanitize_name_spec ?s = ''a_b''"
    by (simp add: sanitize_name_spec_def replace_each_def safe_char_def)
  have "\<forall>a u b. u \<noteq> [] \<and> (\<forall>c\<in>set u. \<not> safe_char c) \<and> ''a!?b'' = a @ u @ b \<and>
        (a = [] \<or> safe_char (last a)) \<and> (b = [] \<or> safe_char (hd b)) \<longrightarrow>
        sub_unsafe ''a!?b'' = sub_unsafe a @ ''_'' @ sub_unsafe b"
    using sanitize_name_runs[of "''a!?b''"] by blast
  from this[rule_format, of "''!?''" "''a''" "''b''"]
  have c: "sub_unsafe (''a'' @ ''!?'' @ ''b'') = sub_unsafe ''a'' @ ''_'' @ sub_unsafe ''b''"
    by (simp add: safe_char_def)
  have "(\<forall>c\<in>set ''ab''. safe_char c) \<longrightarrow> sub_unsafe ''ab'' = ''ab''"
    using sanitize_name_runs[of "''ab''"] by blast
  then have d: "sub_unsafe ''ab'' = ''ab''"
    by (simp add: safe_char_def)
  show ?thesis using a b c d by simp
qed

text \<open>
  Claim C9, as stated, fails: two adjacent characters outside the class become one
  underscore, not two, so the length is not preserved; and surrounding spaces, which are
  in the class, are stripped.
\<close>

theorem sanitize_name_counterexample:
  "sanitize_name ''a!!b'' = ''a_b'' \<and> sanitize_name_spec ''a!!b'' = ''a__b'' \<and>
   length (sanitize_name ''!!'') \<noteq> length ''!!'' \<and>
   length (sanitize_name '' a '') \<noteq> length '' a ''"
  by (simp add: sanitize_name_def sanitize_name_spec_def replace_each_def strip_def
      is_space_def safe_char_def)

section \<open>The fixed-width layout rule\<close>

lemma dpi_or_96_pos: "0 < dpi_or_96 d"
  by (simp add: dpi_or_96_def split: option.splits)

lemma dpi_x_of_pos: "0 < dpi_x_of ndpi"
  by (simp add: dpi_x_of_def dpi_or_96_pos split: option.splits prod.splits)

lemma dpi_y_of_pos: "0 < dpi_y_of ndpi"
  by (simp add: dpi_y_of_def dpi_or_96_pos split: option.splits prod.splits)

lemma layout_nonzero_width:
  assumes "imgwidthpx \<noteq> 0"
  shows "layout_fun_fixed_width imgwidthpx imgheightpx ndpi =
     Inr (720, real_of_int imgheightpx / dpi_y_of ndpi * 72 *
                 (720 / (real_of_int imgwidthpx / dpi_x_of ndpi * 72)),
          720, real_of_int imgheightpx / dpi_y_of ndpi * 72 *
                 (720 / (real_of_int imgwidthpx / dpi_x_of ndpi * 72)))"
proof -
  have x: "dpi_x_of ndpi \<noteq> 0" and y: "dpi_y_of ndpi \<noteq> 0"
    using dpi_x_of_pos[of ndpi] dpi_y_of_pos[of ndpi] by simp_all
  have w: "real_of_int imgwidthpx / dpi_x_of ndpi * 72 \<noteq> 0"
    using assms x by simp
  show ?thesis
    unfolding layout_fun_fixed_width_def Let_def truediv_def using x y w by simp
qed

lemma layout_zero_width:
  "layout_fun_fixed_width 0 imgheightpx ndpi =
     Inr (720, real_of_int imgheightpx / dpi_y_of ndpi * 72 * 1,
          720, real_of_int imgheightpx / dpi_y_of ndpi * 72 * 1)"
proof -
  have x: "dpi_x_of ndpi \<noteq> 0" and y: "dpi_y_of ndpi \<noteq> 0"
    using dpi_x_of_pos[of ndpi] dpi_y_of_pos[of ndpi] by simp_all
  show ?thesis
    unfolding layout_fun_fixed_width_def Let_def truediv_def using x y by simp
qed

text \<open>
  Claim C2. For an image of positive pixel width the layout rule returns a page of width
  720pt whose height is \<open>(height px / DPI_y) * 72 * (720 / ((width px / DPI_x) * 72))\<close>,
  that is, 720 times the ratio of the image's physical height to its physical width.
  Each DPI is 96 when the pair is absent, when the component is absent and when the
  component is not positive. Floats are read as real numbers.
\<close>

theorem layout_fixed_width_geometry:
  assumes "0 < imgwidthpx"
  shows "layout_fun_fixed_width imgwidthpx imgheightpx ndpi =
       Inr (720, real_of_int imgheightpx / dpi_y_of ndpi * 72 *
                   (720 / (real_of_int imgwidthpx / dpi_x_of ndpi * 72)),
            720, real_of_int imgheightpx / dpi_y_of ndpi * 72 *
                   (720 / (real_of_int imgwidthpx / dpi_x_of ndpi * 72))) \<and>
     real_of_int imgheightpx / dpi_y_of ndpi * 72 *
         (720 / (real_of_int imgwidthpx / dpi_x_of ndpi * 72)) =
       720 * ((real_of_int imgheightpx / dpi_y_of ndpi) / (real_of_int imgwidthpx / dpi_x_of ndpi)) \<and>
     dpi_x_of None = 96 \<and> dpi_y_of None = 96 \<and>
     (\<forall>x y. dpi_x_of (Some (x, y)) = (case x of None \<Rightarrow> 96 | Some v \<Rightarrow> if 0 < v then v else 96) \<and>
            dpi_y_of (Some (x, y)) = (case y of None \<Rightarrow> 96 | Some v \<Rightarrow> if 0 < v then v else 96))"
proof -
  have nz: "imgwidthpx \<noteq> 0" using assms by simp
  have x: "dpi_x_of ndpi \<noteq> 0"
    using dpi_x_of_pos[of ndpi] by simp
  have ratio: "real_of_int imgheightpx / dpi_y_of ndpi * 72 *
         (720 / (real_of_int imgwidthpx / dpi_x_of ndpi * 72)) =
       720 * ((real_of_int imgheightpx / dpi_y_of ndpi) / (real_of_int imgwidthpx / dpi_x_of ndpi))"
    using nz x by (simp add: field_simps)
  have d: "dpi_x_of None = 96 \<and> dpi_y_of None = 96 \<and>
     (\<forall>x y. dpi_x_of (Some (x, y)) = (case x of None \<Rightarrow> 96 | Some v \<Rightarrow> if 0 < v then v else 96) \<and>
            dpi_y_of (Some (x, y)) = (case y of None \<Rightarrow> 96 | Some v \<Rightarrow> if 0 < v then v else 96))"
    by (simp add: dpi_x_of_def dpi_y_of_def dpi_or_96_def split: option.splits)
  show ?thesis
    using layout_nonzero_width[OF nz, of imgheightpx ndpi] ratio d by (intro conjI) simp_all
qed

theorem layout_fixed_width_geometry_witness:
  "(0::int) < 1000 \<and>
   layout_fun_fixed_width 1000 3000 (Some (Some 72, Some (-1))) = Inr (720, 1620, 720, 1620) \<and>
   dpi_x_of (Some (Some 72, Some (-1))) = 72 \<and> dpi_y_of (Some (Some 72, Some (-1))) = 96"
proof -
  have h: "(0::int) < 1000" by simp
  have d: "dpi_x_of (Some (Some 72, Some (-1))) = 72 \<and> dpi_y_of (Some (Some 72, Some (-1))) = 96"
    by (simp add: dpi_x_of_def dpi_y_of_def dpi_or_96_def)
  have "layout_fun_fixed_width 1000 3000 (Some (Some 72, Some (-1))) =
       Inr (720, real_of_int 3000 / 96 * 72 * (720 / (real_of_int 1000 / 72 * 72)),
            720, real_of_int 3000 / 96 * 72 * (720 / (real_of_int 1000 / 72 * 72)))"
    using layout_fixed_width_geometry[OF h, of 3000 "Some (Some 72, Some (-1))"] d by simp
  then show ?thesis using d by simp
qed

text \<open>
  Claim C10. The layout rule returns a geometry for every input and never divides by
  zero: both DPI divisors are positive, and the division by the image width in points
  is guarded. The page is always 720pt wide; for a zero pixel width, which is when the
  width in points is zero, the scale is 1 and the height is the image height in points.
\<close>

theorem layout_fixed_width_total:
  "(\<exists>h. layout_fun_fixed_width imgwidthpx imgheightpx ndpi = Inr (720, h, 720, h)) \<and>
   0 < dpi_x_of ndpi \<and> 0 < dpi_y_of ndpi \<and>
   layout_fun_fixed_width 0 imgheightpx ndpi =
     Inr (720, real_of_int imgheightpx / dpi_y_of ndpi * 72 * 1,
          720, real_of_int imgheightpx / dpi_y_of ndpi * 72 * 1)"
proof -
  have "\<exists>h. layout_fun_fixed_width imgwidthpx imgheightpx ndpi = Inr (720, h, 720, h)"
  proof (cases "imgwidthpx = 0")
    case True
    then show ?thesis using layout_zero_width[of imgheightpx ndpi] by blast
  next
    case False
    then show ?thesis using layout_nonzero_width[of imgwidthpx imgheightpx ndpi] by blast
  qed
  then show ?thesis
    using dpi_x_of_pos dpi_y_of_pos layout_zero_width by blast
qed

theorem layout_fixed_width_total_witness:
  "layout_fun_fixed_width 0 3000 (Some (Some 0, None)) = Inr (720, 2250, 720, 2250) \<and>
   layout_fun_fixed_width 0 0 None = Inr (720, 0, 720, 0)"
proof -
  have d: "dpi_y_of (Some (Some 0, None)) = 96 \<and> dpi_y_of None = 96"
    by (simp add: dpi_y_of_def dpi_or_96_def)
  show ?thesis
    using layout_fixed_width_total[of 0 3000 "Some (Some 0, None)"]
      layout_fixed_width_total[of 0 0 None] d by simp
qed

section \<open>The job list of the downloader\<close>

lemma foldl_job_step:
  "foldl (job_step up d) (jobs, idx) us =
     (jobs @ map (job_of up d) (enumerate (Suc idx) (filter (is_valid_image_url up) us)),
      idx + length (filter (is_valid_image_url up) us))"
proof (induction us arbitrary: jobs idx)
  case Nil
  then show ?case by simp
next
  case (Cons u us)
  show ?case
  proof (cases "is_valid_image_url up u")
    case True
    then have "job_step up d (jobs, idx) u =
        (jobs @ [job_of up d (Suc idx, u)], Suc idx)"
      by (simp add: job_step_def job_of_def Let_def)
    then show ?thesis using True Cons.IH by simp
  next
    case False
    then have "job_step up d (jobs, idx) u = (jobs, idx)"
      by (simp add: job_step_def)
    then show ?thesis using False Cons.IH by simp
  qed
qed

lemma build_jobs_eq:
  "build_jobs up d us = map (job_of up d) (enumerate 1 (filter (is_valid_image_url up) us))"
  by (simp add: build_jobs_def foldl_job_step)

lemma length_build_jobs:
  "length (build_jobs up d us) = length (filter (is_valid_image_url up) us)"
  by (simp add: build_jobs_eq)

lemma build_jobs_urls:
  "map job_url (build_jobs up d us) = filter (is_valid_image_url up) us"
proof -
  have "job_url \<circ> job_of up d = snd"
    by (auto simp: job_url_def job_of_def fun_eq_iff)
  then show ?thesis by (simp add: build_jobs_eq)
qed

lemma build_jobs_idxs:
  "map job_idx (build_jobs up d us) = [1..<Suc (length (build_jobs up d us))]"
proof -
  have "job_idx \<circ> job_of up d = fst"
    by (auto simp: job_idx_def job_of_def fun_eq_iff)
  then show ?thesis by (simp add: build_jobs_eq)
qed

lemma build_jobs_nth:
  assumes "k < length (build_jobs up d us)"
  shows "build_jobs up d us ! k =
     (Suc k, filter (is_valid_image_url up) us ! k,
      path_join d (fmt_03d (Suc k) @ dest_ext up (filter (is_valid_image_url up) us ! k)))"
  using assms by (simp add: build_jobs_eq nth_enumerate_eq job_of_def)

lemma endswith_lower: "endswith p t \<Longrightarrow> endswith (lower p) (lower t)"
proof -
  assume h: "endswith p t"
  then have "map lower_char (drop (length p - length t) p) = map lower_char t"
    by (simp add: endswith_def)
  then show ?thesis using h by (simp add: endswith_def lower_def drop_map)
qed

lemma lower_svg_ico: "lower ''.svg'' = ''.svg''" "lower ''.ico'' = ''.ico''"
  by (simp_all add: lower_def lower_char_def is_upper_def)

lemma valid_url_facts:
  assumes "is_valid_image_url up u"
  shows "lower (scheme (up u)) \<in> {''http'', ''https''}"
    and "\<not> endswith (lower (path (up u))) ''.svg''"
    and "\<not> endswith (lower (path (up u))) ''.ico''"
    and "\<not> endswith (path (up u)) ''.svg''"
    and "\<not> endswith (path (up u)) ''.ico''"
proof -
  show a: "lower (scheme (up u)) \<in> {''http'', ''https''}"
    using assms by (auto simp: is_valid_image_url_def Let_def split: if_splits)
  show b: "\<not> endswith (lower (path (up u))) ''.svg''"
    using assms by (auto simp: is_valid_image_url_def Let_def endswith_any_def split: if_splits)
  show c: "\<not> endswith (lower (path (up u))) ''.ico''"
    using assms by (auto simp: is_valid_image_url_def Let_def endswith_any_def split: if_splits)
  show "\<not> endswith (path (up u)) ''.svg''"
    using b endswith_lower[of "path (up u)" "''.svg''"] lower_svg_ico by auto
  show "\<not> endswith (path (up u)) ''.ico''"
    using c endswith_lower[of "path (up u)" "''.ico''"] lower_svg_ico by auto
qed

text \<open>
  Claim C7. The jobs carry exactly the addresses that pass \<open>is_valid_image_url\<close>, in
  their original order, numbered 1, 2, ... without gaps. No job address has a scheme
  other than http or https (so a relative path such as \<open>/icon.png\<close>, whose scheme is
  empty, is never a job), and none has a path ending in \<open>.svg\<close> or \<open>.ico\<close>, in any
  letter case. Building the list raises nothing: rejected entries are skipped.
\<close>

theorem build_jobs_only_valid:
  "map job_url (build_jobs up d urls) = filter (is_valid_image_url up) urls \<and>
   map job_idx (build_jobs up d urls) = [1..<Suc (length (build_jobs up d urls))] \<and>
   (\<forall>j\<in>set (build_jobs up d urls).
      lower (scheme (up (job_url j))) \<in> {''http'', ''https''} \<and>
      \<not> endswith (lower (path (up (job_url j)))) ''.svg'' \<and>
      \<not> endswith (lower (path (up (job_url j)))) ''.ico'' \<and>
      \<not> endswith (path (up (job_url j))) ''.svg'' \<and>
      \<not> endswith (path (up (job_url j))) ''.ico'')"
proof -
  have "is_valid_image_url up (job_url j)" if "j \<in> set (build_jobs up d urls)" for j
  proof -
    have "job_url j \<in> set (map job_url (build_jobs up d urls))" using that by simp
    then show ?thesis unfolding build_jobs_urls by simp
  qed
  then have "\<forall>j\<in>set (build_jobs up d urls).
      lower (scheme (up (job_url j))) \<in> {''http'', ''https''} \<and>
      \<not> endswith (lower (path (up (job_url j)))) ''.svg'' \<and>
      \<not> endswith (lower (path (up (job_url j)))) ''.ico'' \<and>
      \<not> endswith (path (up (job_url j))) ''.svg'' \<and>
      \<not> endswith (path (up (job_url j))) ''.ico''"
    using valid_url_facts by blast
  then show ?thesis using build_jobs_urls build_jobs_idxs by blast
qed

lemma build_jobs_example:
  "build_jobs urlparse_examples ''out''
     [''/icon.png'', ''https://cdn.example/a/p1.PNG'', ''https://cdn.example/a/logo.svg'',
      ''http://cdn.example/a/p2.webp?x=1'', ''https://cdn.example/favicon.ICO'',
      ''https://cdn.example/a/p3'', ''ftp://cdn.example/a/p4.jpg''] =
   [(1, ''https://cdn.example/a/p1.PNG'', ''out/001.png''),
    (2, ''http://cdn.example/a/p2.webp?x=1'', ''out/002.webp''),
    (3, ''https://cdn.example/a/p3'', ''out/003.jpg'')]"
  by code_simp

theorem build_jobs_only_valid_witness:
  "(1, ''https://cdn.example/a/p1.PNG'', ''out/001.png'') \<in>
     set (build_jobs urlparse_examples ''out''
       [''/icon.png'', ''https://cdn.example/a/p1.PNG'', ''https://cdn.example/a/logo.svg'',
        ''http://cdn.example/a/p2.webp?x=1'', ''https://cdn.example/favicon.ICO'',
        ''https://cdn.example/a/p3'', ''ftp://cdn.example/a/p4.jpg'']) \<and>
   lower (scheme (urlparse_examples ''https://cdn.example/a/p1.PNG'')) \<in> {''http'', ''https''} \<and>
   \<not> endswith (path (urlparse_examples ''https://cdn.example/a/p1.PNG'')) ''.svg'' \<and>
   filter (is_valid_image_url urlparse_examples)
       [''/icon.png'', ''https://cdn.example/a/p1.PNG'', ''https://cdn.example/a/logo.svg'',
        ''http://cdn.example/a/p2.webp?x=1'', ''https://cdn.example/favicon.ICO'',
        ''https://cdn.example/a/p3'', ''ftp://cdn.example/a/p4.jpg''] =
     [''https://cdn.example/a/p1.PNG'', ''http://cdn.example/a/p2.webp?x=1'',
      ''https://cdn.example/a/p3'']"
proof -
  let ?L = "[''/icon.png'', ''https://cdn.example/a/p1.PNG'', ''https://cdn.example/a/logo.svg'',
        ''http://cdn.example/a/p2.webp?x=1'', ''https://cdn.example/favicon.ICO'',
        ''https://cdn.example/a/p3'', ''ftp://cdn.example/a/p4.jpg'']"
  let ?j = "(1::nat, ''https://cdn.example/a/p1.PNG'', ''out/001.png'')"
  note t = build_jobs_only_valid[of urlparse_examples "''out''" ?L]
  have mem: "?j \<in> set (build_jobs urlparse_examples ''out'' ?L)"
    unfolding build_jobs_example by simp
  have u: "job_url ?j = ''https://cdn.example/a/p1.PNG''"
    by (simp add: job_url_def)
  from t have "\<forall>j\<in>set (build_jobs urlparse_examples ''out'' ?L).
      lower (scheme (urlparse_examples (job_url j))) \<in> {''http'', ''https''} \<and>
      \<not> endswith (lower (path (urlparse_examples (job_url j)))) ''.svg'' \<and>
      \<not> endswith (lower (path (urlparse_examples (job_url j)))) ''.ico'' \<and>
      \<not> endswith (path (urlparse_examples (job_url j))) ''.svg'' \<and>
      \<not> endswith (path (urlparse_examples (job_url j))) ''.ico''"
    by blast
  from this[rule_format, OF mem] have a:
    "lower (scheme (urlparse_examples ''https://cdn.example/a/p1.PNG'')) \<in> {''http'', ''https''} \<and>
     \<not> endswith (path (urlparse_examples ''https://cdn.example/a/p1.PNG'')) ''.svg''"
    unfolding u by blast
  from t have "map job_url (build_jobs urlparse_examples ''out'' ?L) =
      filter (is_valid_image_url urlparse_examples) ?L"
    by blast
  then have b: "filter (is_valid_image_url urlparse_examples) ?L =
     [''https://cdn.example/a/p1.PNG'', ''http://cdn.example/a/p2.webp?x=1'',
      ''https://cdn.example/a/p3'']"
    unfolding build_jobs_example by (simp add: job_url_def)
  show ?thesis using mem a b by blast
qed

lemma digit_char_code: "d < 10 \<Longrightarrow> of_char (digit_char d) = 48 + d"
proof -
  assume "d < 10"
  then have "d = 0 \<or> d = 1 \<or> d = 2 \<or> d = 3 \<or> d = 4 \<or> d = 5 \<or> d = 6 \<or> d = 7 \<or> d = 8 \<or> d = 9"
    by arith
  then show ?thesis by (elim disjE) (simp_all add: digit_char_def)
qed

lemma digit_char_less:
  assumes "d < 10" "e < 10"
  shows "digit_char d < digit_char e \<longleftrightarrow> d < e"
  using digit_char_code[OF assms(1)] digit_char_code[OF assms(2)]
  by (simp add: less_char_def)

lemma str_nat_1: "n < 10 \<Longrightarrow> str_nat n = [digit_char n]"
  by (simp add: str_nat.simps)

lemma str_nat_2: "10 \<le> n \<Longrightarrow> n < 100 \<Longrightarrow> str_nat n = [digit_char (n div 10), digit_char (n mod 10)]"
  by (subst str_nat.simps) (simp add: str_nat_1)

lemma str_nat_3:
  "100 \<le> n \<Longrightarrow> n < 1000 \<Longrightarrow>
   str_nat n = [digit_char (n div 100), digit_char (n div 10 mod 10), digit_char (n mod 10)]"
  by (subst str_nat.simps) (simp add: str_nat_2 div_mult2_eq[symmetric])

lemma fmt_03d_digits:
  assumes "n < 1000"
  shows "fmt_03d n = [digit_char (n div 100), digit_char (n div 10 mod 10), digit_char (n mod 10)]"
proof -
  consider "n < 10" | "10 \<le> n" "n < 100" | "100 \<le> n" by linarith
  then show ?thesis
  proof cases
    case 1
    then show ?thesis
      by (simp add: fmt_03d_def str_nat_1 numeral_3_eq_3 digit_char_def)
  next
    case 2
    then have "n div 100 = 0" by simp
    moreover have "n div 10 mod 10 = n div 10" using 2 by simp
    ultimately show ?thesis using 2
      by (simp add: fmt_03d_def str_nat_2 digit_char_def)
  next
    case 3
    then show ?thesis using assms
      by (simp add: fmt_03d_def str_nat_3)
  qed
qed

lemma div_mod_10_less:
  fixes m n :: nat
  assumes "m < n"
  shows "m div 10 < n div 10 \<or> (m div 10 = n div 10 \<and> m mod 10 < n mod 10)"
proof -
  have "m div 10 \<le> n div 10" using assms by (simp add: div_le_mono)
  moreover have "10 * (m div 10) + m mod 10 = m" "10 * (n div 10) + n mod 10 = n"
    by simp_all
  ultimately show ?thesis using assms by linarith
qed

lemma digits3_less:
  fixes m n :: nat
  assumes "m < n"
  shows "m div 100 < n div 100 \<or> (m div 100 = n div 100 \<and>
      (m div 10 mod 10 < n div 10 mod 10 \<or>
       (m div 10 mod 10 = n div 10 mod 10 \<and> m mod 10 < n mod 10)))"
proof -
  have h: "k div 100 = k div 10 div 10" for k :: nat
    by (simp add: div_mult2_eq[symmetric])
  show ?thesis
    using div_mod_10_less[OF assms] div_mod_10_less[of "m div 10" "n div 10"]
    unfolding h by auto
qed

lemma fmt_03d_less:
  assumes "m < n" "n < 1000"
  shows "fmt_03d m @ x < fmt_03d n @ y"
proof -
  have m: "m < 1000" using assms by simp
  have dm: "m div 100 < 10" "m div 10 mod 10 < 10" "m mod 10 < 10" using m by simp_all
  have dn: "n div 100 < 10" "n div 10 mod 10 < 10" "n mod 10 < 10" using assms(2) by simp_all
  note l = digit_char_less[OF dm(1) dn(1)] digit_char_less[OF dm(2) dn(2)]
    digit_char_less[OF dm(3) dn(3)]
  have "digit_char (m div 100) < digit_char (n div 100) \<or>
     (digit_char (m div 100) = digit_char (n div 100) \<and>
       (digit_char (m div 10 mod 10) < digit_char (n div 10 mod 10) \<or>
        (digit_char (m div 10 mod 10) = digit_char (n div 10 mod 10) \<and>
         digit_char (m mod 10) < digit_char (n mod 10))))"
    using digits3_less[OF assms(1)] unfolding l by auto
  then show ?thesis
    unfolding fmt_03d_digits[OF m] fmt_03d_digits[OF assms(2)] by auto
qed

lemma fmt_03d_length: "n < 1000 \<Longrightarrow> length (fmt_03d n) = 3"
  by (simp add: fmt_03d_digits)

lemma digit_char_not_slash: "d < 10 \<Longrightarrow> digit_char d \<noteq> CHR ''/''"
  using digit_char_code[of d] by auto

lemma fmt_03d_no_slash: "n < 1000 \<Longrightarrow> CHR ''/'' \<notin> set (fmt_03d n)"
proof -
  assume n: "n < 1000"
  have "n div 100 < 10" "n div 10 mod 10 < 10" "n mod 10 < 10" using n by simp_all
  then have "digit_char (n div 100) \<noteq> CHR ''/''" "digit_char (n div 10 mod 10) \<noteq> CHR ''/''"
    "digit_char (n mod 10) \<noteq> CHR ''/''"
    by (simp_all only: digit_char_not_slash not_False_eq_True)
  then show ?thesis unfolding fmt_03d_digits[OF n] by auto
qed

lemma dest_ext_whitelist: "dest_ext up u \<in> set [''.jpg'', ''.jpeg'', ''.png'', ''.webp'']"
  by (simp add: dest_ext_def Let_def)

lemma dest_ext_no_slash: "CHR ''/'' \<notin> set (dest_ext up u)"
  using dest_ext_whitelist[of up u] by auto

lemma last_segment_append:
  assumes "CHR ''/'' \<notin> set f" "a = [] \<or> last a = CHR ''/''"
  shows "last_segment (a @ f) = f"
proof -
  have "takeWhile (\<lambda>c. c \<noteq> CHR ''/'') (rev a) = []"
    using assms(2) by (cases a rule: rev_cases) auto
  moreover have "\<forall>c\<in>set (rev f). c \<noteq> CHR ''/''" using assms(1) by auto
  then have "takeWhile (\<lambda>c. c \<noteq> CHR ''/'') (rev f @ rev a) =
      rev f @ takeWhile (\<lambda>c. c \<noteq> CHR ''/'') (rev a)"
    by (intro takeWhile_append2) blast
  ultimately have "takeWhile (\<lambda>c. c \<noteq> CHR ''/'') (rev f @ rev a) = rev f"
    by simp
  then show ?thesis by (simp add: last_segment_def)
qed

lemma basename_path_join:
  assumes "CHR ''/'' \<notin> set f"
  shows "basename (path_join d f) = f"
proof -
  have ns: "\<not> startswith f ''/''"
    using assms by (cases f) (auto simp: startswith_def)
  show ?thesis
  proof (cases "d = [] \<or> endswith d ''/''")
    case True
    then have "d = [] \<or> last d = CHR ''/''" by (auto simp: endswith_single)
    then show ?thesis using True ns assms
      by (simp add: basename_def path_join_def last_segment_append)
  next
    case False
    have "last_segment ((d @ ''/'') @ f) = f"
      by (rule last_segment_append) (use assms in auto)
    then show ?thesis using False ns by (simp add: basename_def path_join_def)
  qed
qed

lemma build_jobs_basename:
  assumes "k < length (build_jobs up d us)" "length (build_jobs up d us) \<le> 999"
  shows "basename (job_dest (build_jobs up d us ! k)) =
     fmt_03d (Suc k) @ dest_ext up (job_url (build_jobs up d us ! k))"
proof -
  have "Suc k < 1000" using assms by simp
  then have "CHR ''/'' \<notin> set (fmt_03d (Suc k) @ dest_ext up (filter (is_valid_image_url up) us ! k))"
    using fmt_03d_no_slash dest_ext_no_slash by simp
  then show ?thesis
    unfolding build_jobs_nth[OF assms(1)] by (simp add: job_dest_def job_url_def basename_path_join)
qed

text \<open>
  Claim C1. With at most 999 jobs, the destination file names, in job order, are already
  in lexicographic order and pairwise distinct, so sorting them reproduces the filtered
  order. The name of job \<open>k\<close> is its index in three digits followed by the lower-cased
  extension of the address path when that is one of \<open>.jpg .jpeg .png .webp\<close>, and
  \<open>.jpg\<close> otherwise.
\<close>

theorem download_filenames_sorted:
  assumes "length (build_jobs up d urls) \<le> 999"
  shows "sort (map (basename \<circ> job_dest) (build_jobs up d urls)) =
       map (basename \<circ> job_dest) (build_jobs up d urls) \<and>
     distinct (map (basename \<circ> job_dest) (build_jobs up d urls)) \<and>
     map job_url (build_jobs up d urls) = filter (is_valid_image_url up) urls \<and>
     (\<forall>k<length (build_jobs up d urls).
        basename (job_dest (build_jobs up d urls ! k)) =
          fmt_03d (Suc k) @ dest_ext up (job_url (build_jobs up d urls ! k)) \<and>
        length (fmt_03d (Suc k)) = 3 \<and>
        job_idx (build_jobs up d urls ! k) = Suc k) \<and>
     (\<forall>u. dest_ext up u =
        (if lower (splitext_ext (path (up u))) \<in> {''.jpg'', ''.jpeg'', ''.png'', ''.webp''}
         then lower (splitext_ext (path (up u))) else ''.jpg''))"
proof -
  let ?jobs = "build_jobs up d urls"
  let ?names = "map (basename \<circ> job_dest) ?jobs"
  have nm: "?names ! k = fmt_03d (Suc k) @ dest_ext up (job_url (?jobs ! k))"
    if "k < length ?jobs" for k
    using build_jobs_basename[OF that assms] that by simp
  have "sorted_wrt (<) ?names"
    unfolding sorted_wrt_iff_nth_less
  proof (intro allI impI)
    fix i j assume ij: "i < j" and j: "j < length ?names"
    then have i: "i < length ?jobs" and j': "j < length ?jobs" by simp_all
    have "Suc i < Suc j" "Suc j < 1000" using ij j' assms by simp_all
    then show "?names ! i < ?names ! j"
      unfolding nm[OF i] nm[OF j'] by (rule fmt_03d_less)
  qed
  then have sd: "sorted ?names \<and> distinct ?names"
    by (simp add: strict_sorted_iff)
  then have s: "sort ?names = ?names"
    by (simp add: sorted_sort_id)
  have per: "\<forall>k<length ?jobs.
        basename (job_dest (?jobs ! k)) = fmt_03d (Suc k) @ dest_ext up (job_url (?jobs ! k)) \<and>
        length (fmt_03d (Suc k)) = 3 \<and> job_idx (?jobs ! k) = Suc k"
  proof (intro allI impI)
    fix k assume k: "k < length ?jobs"
    then have "Suc k < 1000" using assms by simp
    then have "length (fmt_03d (Suc k)) = 3" by (rule fmt_03d_length)
    moreover have "job_idx (?jobs ! k) = Suc k"
      unfolding build_jobs_nth[OF k] by (simp add: job_idx_def)
    ultimately show "basename (job_dest (?jobs ! k)) =
          fmt_03d (Suc k) @ dest_ext up (job_url (?jobs ! k)) \<and>
        length (fmt_03d (Suc k)) = 3 \<and> job_idx (?jobs ! k) = Suc k"
      using build_jobs_basename[OF k assms] by simp
  qed
  have ext: "\<forall>u. dest_ext up u =
        (if lower (splitext_ext (path (up u))) \<in> {''.jpg'', ''.jpeg'', ''.png'', ''.webp''}
         then lower (splitext_ext (path (up u))) else ''.jpg'')"
    by (simp add: dest_ext_def Let_def)
  show ?thesis
    using s sd build_jobs_urls[of up d urls] per ext by (intro conjI) simp_all
qed

theorem download_filenames_sorted_witness:
  "length (build_jobs urlparse_examples ''out''
       [''/icon.png'', ''https://cdn.example/a/p1.PNG'', ''https://cdn.example/a/logo.svg'',
        ''http://cdn.example/a/p2.webp?x=1'', ''https://cdn.example/favicon.ICO'',
        ''https://cdn.example/a/p3'', ''ftp://cdn.example/a/p4.jpg'']) \<le> 999 \<and>
   sort [''001.png'', ''002.webp'', ''003.jpg''] = [''001.png'', ''002.webp'', ''003.jpg''] \<and>
   map (basename \<circ> job_dest) (build_jobs urlparse_examples ''out''
       [''/icon.png'', ''https://cdn.example/a/p1.PNG'', ''https://cdn.example/a/logo.svg'',
        ''http://cdn.example/a/p2.webp?x=1'', ''https://cdn.example/favicon.ICO'',
        ''https://cdn.example/a/p3'', ''ftp://cdn.example/a/p4.jpg'']) =
     [''001.png'', ''002.webp'', ''003.jpg'']"
proof -
  let ?L = "[''/icon.png'', ''https://cdn.example/a/p1.PNG'', ''https://cdn.example/a/logo.svg'',
        ''http://cdn.example/a/p2.webp?x=1'', ''https://cdn.example/favicon.ICO'',
        ''https://cdn.example/a/p3'', ''ftp://cdn.example/a/p4.jpg'']"
  have len: "length (build_jobs urlparse_examples ''out'' ?L) \<le> 999"
    unfolding build_jobs_example by simp
  have names: "map (basename \<circ> job_dest) (build_jobs urlparse_examples ''out'' ?L) =
     [''001.png'', ''002.webp'', ''003.jpg'']"
    unfolding build_jobs_example by (simp add: basename_def job_dest_def last_segment_def)
  have "sort (map (basename \<circ> job_dest) (build_jobs urlparse_examples ''out'' ?L)) =
       map (basename \<circ> job_dest) (build_jobs urlparse_examples ''out'' ?L)"
    using download_filenames_sorted[OF len] by blast
  then have "sort [''001.png'', ''002.webp'', ''003.jpg''] = [''001.png'', ''002.webp'', ''003.jpg'']"
    unfolding names .
  then show ?thesis using len names by blast
qed

section \<open>Skipping chapters whose document exists\<close>

lemma say_fields [simp]:
  "files (say m w) = files w" "requests (say m w) = requests w" "slept (say m w) = slept w"
  "advanced (say m w) = advanced w" "console (say m w) = console w @ [m]"
  by (simp_all add: say_def)

lemma path_exists_say [simp]: "path_exists (say m w) p = path_exists w p"
  by (simp add: path_exists_def)

lemma bulk_chapter_skip:
  assumes "\<not> force" "path_exists w (chapter_pdf series_dir (str_nat idx))"
  shows "bulk_chapter e series_dir force max_retries verbose (idx, chapter_url) w =
     (Inr (), say (ChapterExists (str_nat idx) (chapter_pdf series_dir (str_nat idx))) w)"
  using assms by (simp add: bulk_chapter_def Let_def)

lemma bulk_loop_all_skipped:
  assumes "\<not> force"
  shows "\<forall>ic\<in>set ics. path_exists w (chapter_pdf series_dir (str_nat (fst ic))) \<Longrightarrow>
     bulk_loop e series_dir force max_retries verbose ics w =
       (Inr (), w\<lparr>console := console w @
          map (\<lambda>ic. ChapterExists (str_nat (fst ic)) (chapter_pdf series_dir (str_nat (fst ic)))) ics\<rparr>)"
proof (induction ics arbitrary: w)
  case Nil
  then show ?case by simp
next
  case (Cons ic ics)
  obtain idx url where ic: "ic = (idx, url)" by (cases ic)
  let ?w1 = "say (ChapterExists (str_nat idx) (chapter_pdf series_dir (str_nat idx))) w"
  have step: "bulk_chapter e series_dir force max_retries verbose ic w = (Inr (), ?w1)"
    unfolding ic using Cons.prems assms by (intro bulk_chapter_skip) (simp_all add: ic)
  have "\<forall>ic\<in>set ics. path_exists ?w1 (chapter_pdf series_dir (str_nat (fst ic)))"
    using Cons.prems by simp
  from Cons.IH[OF this] show ?case
    using step by (simp add: ic say_def)
qed

text \<open>
  Claim C8. With \<open>force\<close> off, a chapter whose output document exists is skipped, in
  single-chapter mode and in each round of the bulk loop alike: the only change to the
  world is the message that the chapter exists, so no request is sent, no file is
  written and nothing sleeps. When every chapter of a bulk run has its document, the
  whole loop sends no request and leaves the files as they are. (Before its loop, a bulk
  run fetches the series page to learn the chapter count; that request belongs to no
  chapter.)
\<close>

theorem existing_document_skipped:
  assumes "\<not> force"
  shows "(path_exists w (chapter_pdf (derive_series_name (url_parse e) chapter_url series_name)
              (single_label chapter_url chapter_num)) \<longrightarrow>
       run_single e chapter_url series_name chapter_num force max_retries verbose w =
         (Inr (), say (ChapterExists (single_label chapter_url chapter_num)
                    (chapter_pdf (derive_series_name (url_parse e) chapter_url series_name)
                       (single_label chapter_url chapter_num))) w)) \<and>
     (path_exists w (chapter_pdf series_dir (str_nat idx)) \<longrightarrow>
       bulk_chapter e series_dir force max_retries verbose (idx, bulk_url) w =
         (Inr (), say (ChapterExists (str_nat idx) (chapter_pdf series_dir (str_nat idx))) w)) \<and>
     ((\<forall>ic\<in>set ics. path_exists w (chapter_pdf series_dir (str_nat (fst ic)))) \<longrightarrow>
       fst (bulk_loop e series_dir force max_retries verbose ics w) = Inr () \<and>
       requests (snd (bulk_loop e series_dir force max_retries verbose ics w)) = requests w \<and>
       files (snd (bulk_loop e series_dir force max_retries verbose ics w)) = files w \<and>
       console (snd (bulk_loop e series_dir force max_retries verbose ics w)) = console w @
          map (\<lambda>ic. ChapterExists (str_nat (fst ic)) (chapter_pdf series_dir (str_nat (fst ic)))) ics) \<and>
     requests (say m w) = requests w \<and> files (say m w) = files w \<and>
     slept (say m w) = slept w \<and> console (say m w) = console w @ [m]"
proof -
  have single: "path_exists w (chapter_pdf (derive_series_name (url_parse e) chapter_url series_name)
              (single_label chapter_url chapter_num)) \<longrightarrow>
       run_single e chapter_url series_name chapter_num force max_retries verbose w =
         (Inr (), say (ChapterExists (single_label chapter_url chapter_num)
                    (chapter_pdf (derive_series_name (url_parse e) chapter_url series_name)
                       (single_label chapter_url chapter_num))) w)"
    using assms by (simp add: run_single_def Let_def)
  have bulk: "path_exists w (chapter_pdf series_dir (str_nat idx)) \<longrightarrow>
       bulk_chapter e series_dir force max_retries verbose (idx, bulk_url) w =
         (Inr (), say (ChapterExists (str_nat idx) (chapter_pdf series_dir (str_nat idx))) w)"
    using assms bulk_chapter_skip by blast
  have loop: "(\<forall>ic\<in>set ics. path_exists w (chapter_pdf series_dir (str_nat (fst ic)))) \<longrightarrow>
       fst (bulk_loop e series_dir force max_retries verbose ics w) = Inr () \<and>
       requests (snd (bulk_loop e series_dir force max_retries verbose ics w)) = requests w \<and>
       files (snd (bulk_loop e series_dir force max_retries verbose ics w)) = files w \<and>
       console (snd (bulk_loop e series_dir force max_retries verbose ics w)) = console w @
          map (\<lambda>ic. ChapterExists (str_nat (fst ic)) (chapter_pdf series_dir (str_nat (fst ic)))) ics"
  proof
    assume "\<forall>ic\<in>set ics. path_exists w (chapter_pdf series_dir (str_nat (fst ic)))"
    from bulk_loop_all_skipped[OF assms this, of e max_retries verbose]
    show "fst (bulk_loop e series_dir force max_retries verbose ics w) = Inr () \<and>
       requests (snd (bulk_loop e series_dir force max_retries verbose ics w)) = requests w \<and>
       files (snd (bulk_loop e series_dir force max_retries verbose ics w)) = files w \<and>
       console (snd (bulk_loop e series_dir force max_retries verbose ics w)) = console w @
          map (\<lambda>ic. ChapterExists (str_nat (fst ic)) (chapter_pdf series_dir (str_nat (fst ic)))) ics"
      by simp
  qed
  show ?thesis using single bulk loop by (intro conjI) simp_all
qed

lemma example_paths:
  "single_label ''https://x.org/series/foo/chapter-5'' None = ''5''"
  "derive_series_name (url_parse env_examples) ''https://x.org/series/foo/chapter-5'' (Some ''foo'') = ''foo''"
  "chapter_pdf ''foo'' ''5'' = ''foo/Chapters/chapter-5.pdf''"
  "str_nat 5 = ''5''"
  by code_simp+

theorem existing_document_skipped_witness:
  "\<not> False \<and>
   path_exists (world_empty\<lparr>files := [(''foo/Chapters/chapter-5.pdf'', Pdf [])]\<rparr>)
     ''foo/Chapters/chapter-5.pdf'' \<and>
   run_single env_examples ''https://x.org/series/foo/chapter-5'' (Some ''foo'') None False 3 False
       (world_empty\<lparr>files := [(''foo/Chapters/chapter-5.pdf'', Pdf [])]\<rparr>) =
     (Inr (), say (ChapterExists ''5'' ''foo/Chapters/chapter-5.pdf'')
               (world_empty\<lparr>files := [(''foo/Chapters/chapter-5.pdf'', Pdf [])]\<rparr>)) \<and>
   bulk_chapter env_examples ''foo'' False 3 False (5, ''https://x.org/series/foo/chapter-5'')
       (world_empty\<lparr>files := [(''foo/Chapters/chapter-5.pdf'', Pdf [])]\<rparr>) =
     (Inr (), say (ChapterExists ''5'' ''foo/Chapters/chapter-5.pdf'')
               (world_empty\<lparr>files := [(''foo/Chapters/chapter-5.pdf'', Pdf [])]\<rparr>)) \<and>
   requests (snd (bulk_loop env_examples ''foo'' False 3 False
       [(5, ''https://x.org/series/foo/chapter-5'')]
       (world_empty\<lparr>files := [(''foo/Chapters/chapter-5.pdf'', Pdf [])]\<rparr>))) = [] \<and>
   files (snd (bulk_loop env_examples ''foo'' False 3 False
       [(5, ''https://x.org/series/foo/chapter-5'')]
       (world_empty\<lparr>files := [(''foo/Chapters/chapter-5.pdf'', Pdf [])]\<rparr>))) =
     [(''foo/Chapters/chapter-5.pdf'', Pdf [])]"
proof -
  let ?w = "world_empty\<lparr>files := [(''foo/Chapters/chapter-5.pdf'', Pdf [])]\<rparr>"
  let ?u = "''https://x.org/series/foo/chapter-5''"
  have nf: "\<not> False" by simp
  have ex: "path_exists ?w ''foo/Chapters/chapter-5.pdf''"
    by (simp add: path_exists_def world_empty_def)
  have all: "\<forall>ic\<in>set [(5::nat, ?u)]. path_exists ?w (chapter_pdf ''foo'' (str_nat (fst ic)))"
    using ex by (simp add: example_paths)
  note t = existing_document_skipped[OF nf, where w = ?w and e = env_examples
      and chapter_url = ?u and series_name = "Some ''foo''" and chapter_num = None
      and series_dir = "''foo''" and idx = 5 and max_retries = 3 and verbose = False
      and bulk_url = ?u and ics = "[(5, ?u)]" and m = CouldNotDetermineTotal]
  have a: "run_single env_examples ?u (Some ''foo'') None False 3 False ?w =
     (Inr (), say (ChapterExists ''5'' ''foo/Chapters/chapter-5.pdf'') ?w)"
    using t ex by (simp add: example_paths)
  have b: "bulk_chapter env_examples ''foo'' False 3 False (5, ?u) ?w =
     (Inr (), say (ChapterExists ''5'' ''foo/Chapters/chapter-5.pdf'') ?w)"
    using t ex by (simp add: example_paths)
  have c: "requests (snd (bulk_loop env_examples ''foo'' False 3 False [(5, ?u)] ?w)) = requests ?w \<and>
       files (snd (bulk_loop env_examples ''foo'' False 3 False [(5, ?u)] ?w)) = files ?w"
    using t all by blast
  have d: "requests ?w = [] \<and> files ?w = [(''foo/Chapters/chapter-5.pdf'', Pdf [])]"
    by (simp add: world_empty_def)
  show ?thesis using ex a b c d by simp
qed

section \<open>Attempts, waits and outcome of a download job\<close>

lemma sleep_fields [simp]:
  "files (sleep t w) = files w" "requests (sleep t w) = requests w"
  "slept (sleep t w) = slept w @ [t]" "console (sleep t w) = console w"
  "advanced (sleep t w) = advanced w"
  by (simp_all add: sleep_def)

lemma send_fields [simp]:
  "files (send m u w) = files w" "requests (send m u w) = requests w @ [(m, u)]"
  "slept (send m u w) = slept w" "console (send m u w) = console w"
  "advanced (send m u w) = advanced w"
  by (simp_all add: send_def)

lemma get_once:
  "get_with_retries e url 1 w =
     (case http_get e (length (requests w)) url of
        Inr resp \<Rightarrow> (Inr resp, send GET url w)
      | Inl (RequestException m) \<Rightarrow> (Inl (RequestException m), sleep (0.6 * 1) (send GET url w))
      | Inl (OtherException m) \<Rightarrow> (Inl (OtherException m), send GET url w))"
  by (simp add: get_with_retries_def Let_def split: sum.splits exn.splits)

lemma download_attempts_trace:
  "download_attempts e url dest a k written last_err w = ((ok, wr, le), w') \<Longrightarrow>
   ok = (length (leading_failures e url (length (requests w)) k) < k) \<and>
   requests w' = requests w @
     replicate (min k (Suc (length (leading_failures e url (length (requests w)) k)))) (GET, url) \<and>
   slept w' = slept w @
     concat (map waits_after (enumerate a (leading_failures e url (length (requests w)) k))) \<and>
   le = (if leading_failures e url (length (requests w)) k = [] then last_err
         else Some (failure_exn (last (leading_failures e url (length (requests w)) k)))) \<and>
   console w' = console w"
proof (induction k arbitrary: a written last_err w)
  case 0
  then show ?case by simp
next
  case (Suc k)
  let ?n = "length (requests w)"
  show ?case
  proof (cases "http_get e ?n url")
    case (Inl x)
    obtain w1 where g: "get_with_retries e url 1 w = (Inl x, w1)"
      and r1: "requests w1 = requests w @ [(GET, url)]"
      and c1: "console w1 = console w"
      and s1: "slept w1 @ [0.6 * real a] = slept w @ waits_after (a, AtRequest x)"
      using Inl by (cases x) (simp_all add: get_once)
    have af: "attempt_failure e ?n url = Some (AtRequest x)"
      using Inl by (simp add: attempt_failure_def)
    have rec: "download_attempts e url dest (a + 1) k written (Some x) (sleep (0.6 * real a) w1)
        = ((ok, wr, le), w')"
      using Suc.prems unfolding download_attempts.simps g by simp
    have n1: "length (requests (sleep (0.6 * real a) w1)) = Suc ?n"
      using r1 by simp
    have s2: "slept (sleep (0.6 * real a) w1) = slept w @ waits_after (a, AtRequest x)"
      using s1 by simp
    have r2: "requests (sleep (0.6 * real a) w1) = requests w @ [(GET, url)]"
      and c2: "console (sleep (0.6 * real a) w1) = console w"
      using r1 c1 by simp_all
    note ih = Suc.IH[OF rec, unfolded n1 s2 r2 c2]
    show ?thesis
      using ih af by (simp add: enumerate_simps replicate_append_same min_def)
  next
    case (Inr resp)
    have g: "get_with_retries e url 1 w = (Inr resp, send GET url w)"
      using Inr by (simp add: get_once)
    let ?body = "concat (filter (\<lambda>chunk. chunk \<noteq> []) (resp_chunks resp))"
    let ?w2 = "(send GET url w)\<lparr>files := write_file dest (Bytes ?body) (files (send GET url w)),
                       advanced := advanced (send GET url w) + length ?body\<rparr>"
    show ?thesis
    proof (cases "resp_stream_error resp")
      case None
      have af: "attempt_failure e ?n url = None"
        using Inr None by (simp add: attempt_failure_def)
      have "((ok, wr, le), w') = ((True, written + length ?body, last_err), ?w2)"
        using Suc.prems g None by (simp add: Let_def)
      then show ?thesis using af by simp
    next
      case (Some x)
      have af: "attempt_failure e ?n url = Some (InStream x)"
        using Inr Some by (simp add: attempt_failure_def)
      have rec: "download_attempts e url dest (a + 1) k (written + length ?body) (Some x)
          (sleep (0.6 * real a) ?w2) = ((ok, wr, le), w')"
        using Suc.prems g Some by (simp add: Let_def)
      have n1: "length (requests (sleep (0.6 * real a) ?w2)) = Suc ?n"
        by simp
      note ih = Suc.IH[OF rec, unfolded n1]
      show ?thesis
        using ih af by (simp add: enumerate_simps replicate_append_same min_def)
    qed
  qed
qed

lemma length_leading_failures: "length (leading_failures e url n k) \<le> k"
  by (induction k arbitrary: n) (auto split: option.splits)

lemma wrap_download_trace:
  "\<exists>written.
     fst (wrap_download e mr (i, url, dest) w) =
       (i, dest, length (job_failures e mr url w) < nat mr, written,
        if length (job_failures e mr url w) < nat mr then None
        else Some (if job_failures e mr url w = [] then ''None''
                   else exn_str (failure_exn (last (job_failures e mr url w))))) \<and>
     requests (snd (wrap_download e mr (i, url, dest) w)) = requests w @
       replicate (min (nat mr) (Suc (length (job_failures e mr url w)))) (GET, url) \<and>
     slept (snd (wrap_download e mr (i, url, dest) w)) = slept w @
       concat (map waits_after (enumerate 1 (job_failures e mr url w))) \<and>
     console (snd (wrap_download e mr (i, url, dest) w)) = console w"
proof -
  obtain ok wr le w' where d:
    "download_attempts e url dest 1 (nat mr) 0 None w = ((ok, wr, le), w')"
    by (metis prod.collapse)
  note t = download_attempts_trace[OF d]
  have r: "wrap_download e mr (i, url, dest) w =
      ((i, dest, ok, wr,
        if \<not> ok then Some (case le of None \<Rightarrow> ''None'' | Some x \<Rightarrow> exn_str x) else None), w')"
    using d by (simp add: wrap_download_def)
  show ?thesis
    unfolding r job_failures_def using t by (intro exI[of _ wr]) auto
qed

lemma wrap_download_idx: "fst (fst (wrap_download e mr j w)) = job_idx j"
  by (cases j) (simp add: wrap_download_def job_idx_def split: prod.splits)

lemma run_downloads_results:
  "map fst (fst (run_downloads e mr jobs results w)) = map fst results @ map job_idx jobs"
proof (induction jobs arbitrary: results w)
  case Nil
  then show ?case by simp
next
  case (Cons j js)
  obtain r w1 where s: "wrap_download e mr j w = (r, w1)" by (cases "wrap_download e mr j w")
  have "fst r = job_idx j" using wrap_download_idx[of e mr j w] s by simp
  then show ?case using Cons.IH[of "results @ [r]" w1] s by simp
qed

lemma run_downloads_snoc:
  "run_downloads e mr (js @ [j]) results w =
     (case run_downloads e mr js results w of
        (rs, w1) \<Rightarrow> (case wrap_download e mr j w1 of (r, w2) \<Rightarrow> (rs @ [r], w2)))"
proof (induction js arbitrary: results w)
  case Nil
  then show ?case by (simp split: prod.splits)
next
  case (Cons a js)
  then show ?case by (simp split: prod.splits)
qed

lemma run_downloads_length:
  "length (fst (run_downloads e mr jobs results w)) = length results + length jobs"
proof -
  have "length (map fst (fst (run_downloads e mr jobs results w))) =
      length (map fst results @ map job_idx jobs)"
    by (simp only: run_downloads_results)
  then show ?thesis by simp
qed

lemma run_downloads_nth:
  "k < length jobs \<Longrightarrow>
   fst (run_downloads e mr jobs [] w) ! k =
     fst (wrap_download e mr (jobs ! k) (snd (run_downloads e mr (take k jobs) [] w))) \<and>
   snd (run_downloads e mr (take (Suc k) jobs) [] w) =
     snd (wrap_download e mr (jobs ! k) (snd (run_downloads e mr (take k jobs) [] w)))"
proof (induction jobs arbitrary: k rule: rev_induct)
  case Nil
  then show ?case by simp
next
  case (snoc j js)
  obtain rs w1 where a: "run_downloads e mr js [] w = (rs, w1)"
    by (cases "run_downloads e mr js [] w")
  obtain r w2 where b: "wrap_download e mr j w1 = (r, w2)"
    by (cases "wrap_download e mr j w1")
  have all: "run_downloads e mr (js @ [j]) [] w = (rs @ [r], w2)"
    by (simp add: run_downloads_snoc a b)
  have len: "length rs = length js"
    using run_downloads_length[of e mr js "[]" w] a by simp
  show ?case
  proof (cases "k < length js")
    case True
    then have "Suc k \<le> length js" by simp
    then show ?thesis
      using snoc.IH[OF True] True all a len by (simp add: nth_append)
  next
    case False
    then have k: "k = length js" using snoc.prems by simp
    show ?thesis unfolding k using all a b len by (simp add: nth_append)
  qed
qed

text \<open>
  Claim C3, as amended. A job sends one request per attempt and makes at most
  \<open>max_retries\<close> attempts, stopping at the first success. It is recorded as succeeded
  exactly when an attempt succeeded; otherwise as failed with the message of its last
  failure. After failed attempt \<open>k\<close>, the last one included, the job's own loop sleeps
  \<open>0.6 * k\<close> seconds, which is the adapter's formula; this comes on top of the 0.6 s
  that the single-attempt adapter call has already slept when the failure was a request
  failure. No job is aborted or cancelled on account of another: the pool collects one
  result per job, and the result of job \<open>k\<close> is the one its own attempt loop returns,
  run to its end from the world the jobs before it have left.
\<close>

theorem download_job_attempts:
  "(\<exists>written.
     fst (wrap_download e max_retries (i, url, dest) w) =
       (i, dest, length (job_failures e max_retries url w) < nat max_retries, written,
        if length (job_failures e max_retries url w) < nat max_retries then None
        else Some (if job_failures e max_retries url w = [] then ''None''
                   else exn_str (failure_exn (last (job_failures e max_retries url w)))))) \<and>
   length (job_failures e max_retries url w) \<le> nat max_retries \<and>
   requests (snd (wrap_download e max_retries (i, url, dest) w)) = requests w @
     replicate (min (nat max_retries) (Suc (length (job_failures e max_retries url w)))) (GET, url) \<and>
   slept (snd (wrap_download e max_retries (i, url, dest) w)) = slept w @
     concat (map waits_after (enumerate 1 (job_failures e max_retries url w))) \<and>
   map fst (fst (run_downloads e max_retries jobs [] w)) = map job_idx jobs \<and>
   length (fst (run_downloads e max_retries jobs [] w)) = length jobs \<and>
   (\<forall>k<length jobs.
      fst (run_downloads e max_retries jobs [] w) ! k =
        fst (wrap_download e max_retries (jobs ! k)
               (snd (run_downloads e max_retries (take k jobs) [] w))) \<and>
      snd (run_downloads e max_retries (take (Suc k) jobs) [] w) =
        snd (wrap_download e max_retries (jobs ! k)
               (snd (run_downloads e max_retries (take k jobs) [] w))))"
proof -
  have len: "length (job_failures e max_retries url w) \<le> nat max_retries"
    by (simp add: job_failures_def length_leading_failures)
  have m: "map fst (fst (run_downloads e max_retries jobs [] w)) = map job_idx jobs"
    using run_downloads_results[of e max_retries jobs "[]" w] by simp
  have l: "length (fst (run_downloads e max_retries jobs [] w)) = length jobs"
    using run_downloads_length[of e max_retries jobs "[]" w] by simp
  have each: "\<forall>k<length jobs.
      fst (run_downloads e max_retries jobs [] w) ! k =
        fst (wrap_download e max_retries (jobs ! k)
               (snd (run_downloads e max_retries (take k jobs) [] w))) \<and>
      snd (run_downloads e max_retries (take (Suc k) jobs) [] w) =
        snd (wrap_download e max_retries (jobs ! k)
               (snd (run_downloads e max_retries (take k jobs) [] w)))"
    using run_downloads_nth by blast
  show ?thesis
    using wrap_download_trace[of e max_retries i url dest w] len m l each
    by (intro conjI) blast+
qed

lemma example_failures:
  "job_failures env_examples 2 ''http://cdn.example/a/p2.webp?x=1'' world_empty =
     [AtRequest (RequestException ''503 Server Error''),
      AtRequest (RequestException ''503 Server Error'')]"
  "job_failures env_examples 2 ''https://cdn.example/a/p3'' world_empty =
     [InStream (RequestException ''connection broken''),
      InStream (RequestException ''connection broken'')]"
  "job_failures env_examples 2 ''https://cdn.example/a/p1.PNG'' world_empty = []"
  by (simp_all add: job_failures_def world_empty_def env_examples_def attempt_failure_def
      numeral_2_eq_2)

lemma example_pool:
  "fst (run_downloads env_examples 2
     [(1, ''http://cdn.example/a/p2.webp?x=1'', ''out/001.webp''),
      (2, ''https://cdn.example/a/p1.PNG'', ''out/002.png'')] [] world_empty) =
   [(1, ''out/001.webp'', False, 0, Some ''503 Server Error''),
    (2, ''out/002.png'', True, 5, None)]"
  by code_simp

theorem download_job_attempts_witness:
  "(\<exists>written. fst (wrap_download env_examples 2
        (2, ''http://cdn.example/a/p2.webp?x=1'', ''out/002.webp'') world_empty) =
      (2, ''out/002.webp'', False, written, Some ''503 Server Error'')) \<and>
   requests (snd (wrap_download env_examples 2
        (2, ''http://cdn.example/a/p2.webp?x=1'', ''out/002.webp'') world_empty)) =
     [(GET, ''http://cdn.example/a/p2.webp?x=1''), (GET, ''http://cdn.example/a/p2.webp?x=1'')] \<and>
   slept (snd (wrap_download env_examples 2
        (2, ''http://cdn.example/a/p2.webp?x=1'', ''out/002.webp'') world_empty)) =
     [0.6, 0.6, 0.6, 1.2] \<and>
   (1::nat) < length [(1::nat, ''http://cdn.example/a/p2.webp?x=1'', ''out/001.webp''),
                      (2, ''https://cdn.example/a/p1.PNG'', ''out/002.png'')] \<and>
   fst (wrap_download env_examples 2 (2, ''https://cdn.example/a/p1.PNG'', ''out/002.png'')
         (snd (run_downloads env_examples 2
            [(1, ''http://cdn.example/a/p2.webp?x=1'', ''out/001.webp'')] [] world_empty))) =
     (2, ''out/002.png'', True, 5, None) \<and>
   fst (run_downloads env_examples 2
     [(1, ''http://cdn.example/a/p2.webp?x=1'', ''out/001.webp''),
      (2, ''https://cdn.example/a/p1.PNG'', ''out/002.png'')] [] world_empty) =
   [(1, ''out/001.webp'', False, 0, Some ''503 Server Error''),
    (2, ''out/002.png'', True, 5, None)]"
proof -
  let ?jobs = "[(1::nat, ''http://cdn.example/a/p2.webp?x=1'', ''out/001.webp''),
                (2, ''https://cdn.example/a/p1.PNG'', ''out/002.png'')]"
  note t = download_job_attempts[of env_examples 2 2 "''http://cdn.example/a/p2.webp?x=1''"
      "''out/002.webp''" world_empty ?jobs]
  have a: "(\<exists>written. fst (wrap_download env_examples 2
        (2, ''http://cdn.example/a/p2.webp?x=1'', ''out/002.webp'') world_empty) =
      (2, ''out/002.webp'', False, written, Some ''503 Server Error'')) \<and>
   requests (snd (wrap_download env_examples 2
        (2, ''http://cdn.example/a/p2.webp?x=1'', ''out/002.webp'') world_empty)) =
     [(GET, ''http://cdn.example/a/p2.webp?x=1''), (GET, ''http://cdn.example/a/p2.webp?x=1'')] \<and>
   slept (snd (wrap_download env_examples 2
        (2, ''http://cdn.example/a/p2.webp?x=1'', ''out/002.webp'') world_empty)) =
     [0.6, 0.6, 0.6, 1.2]"
    using t by (simp add: example_failures enumerate_simps numeral_2_eq_2)
       (simp add: world_empty_def)
  have k: "(1::nat) < length ?jobs" by simp
  from t have "\<forall>k<length ?jobs.
      fst (run_downloads env_examples 2 ?jobs [] world_empty) ! k =
        fst (wrap_download env_examples 2 (?jobs ! k)
               (snd (run_downloads env_examples 2 (take k ?jobs) [] world_empty)))"
    by blast
  from this[rule_format, OF k]
  have "fst (run_downloads env_examples 2 ?jobs [] world_empty) ! 1 =
      fst (wrap_download env_examples 2 (2, ''https://cdn.example/a/p1.PNG'', ''out/002.png'')
         (snd (run_downloads env_examples 2
            [(1, ''http://cdn.example/a/p2.webp?x=1'', ''out/001.webp'')] [] world_empty)))"
    by simp
  then have b: "fst (wrap_download env_examples 2 (2, ''https://cdn.example/a/p1.PNG'', ''out/002.png'')
         (snd (run_downloads env_examples 2
            [(1, ''http://cdn.example/a/p2.webp?x=1'', ''out/001.webp'')] [] world_empty))) =
     (2, ''out/002.png'', True, 5, None)"
    unfolding example_pool by simp
  show ?thesis using a k b example_pool by (intro conjI) simp_all
qed

text \<open>
  Claim C3, as stated, fails: with two attempts that both fail at the request, the job
  sleeps 0.6 + 0.6 s between the first attempt and the second (and 0.6 + 1.2 s after the
  second), whereas the adapter with two attempts sleeps 0.6 s between them.
\<close>

theorem download_backoff_counterexample:
  "slept (snd (wrap_download env_examples 2
       (2, ''http://cdn.example/a/p2.webp?x=1'', ''out/002.webp'') world_empty)) =
     [0.6, 0.6, 0.6, 1.2] \<and>
   slept (snd (get_with_retries env_examples ''http://cdn.example/a/p2.webp?x=1'' 2 world_empty)) =
     [0.6, 1.2]"
  by (simp add: wrap_download_def get_with_retries_def world_empty_def env_examples_def
      numeral_2_eq_2 Let_def send_def sleep_def)

section \<open>What the downloader hands back\<close>

lemma head_content_length_console: "console (snd (head_content_length e url w)) = console w"
  by (simp add: head_content_length_def Let_def split: sum.splits option.splits)

lemma estimate_total_console: "console (snd (estimate_total e jobs t w)) = console w"
proof (induction jobs arbitrary: t w)
  case Nil
  then show ?case by simp
next
  case (Cons j js)
  obtain sz w1 where h: "head_content_length e (job_url j) w = (sz, w1)"
    by (cases "head_content_length e (job_url j) w")
  have "console w1 = console w" using head_content_length_console[of e "job_url j" w] h by simp
  then show ?case using Cons.IH[of "t + sz" w1] h by simp
qed

lemma wrap_download_console: "console (snd (wrap_download e mr j w)) = console w"
proof -
  obtain i url dest where j: "j = (i, url, dest)" by (cases j)
  show ?thesis unfolding j using wrap_download_trace[of e mr i url dest w] by blast
qed

lemma run_downloads_console: "console (snd (run_downloads e mr jobs results w)) = console w"
proof (induction jobs arbitrary: results w)
  case Nil
  then show ?case by simp
next
  case (Cons j js)
  obtain r w1 where s: "wrap_download e mr j w = (r, w1)" by (cases "wrap_download e mr j w")
  have "console w1 = console w" using wrap_download_console[of e mr j w] s by simp
  then show ?case using Cons.IH[of "results @ [r]" w1] s by simp
qed

text \<open>
  Claim C5, as amended. The download operation collects one outcome per surviving
  address, succeeded and failed alike, in the jobs' indices, and reports them on the
  console: their count always, and the table of all of them, ordered by index, in
  verbose mode. Its value is \<open>None\<close> for every input: the outcomes are not returned to
  the caller.
\<close>

theorem download_returns_none:
  "fst (download_images_threaded e image_urls out_dir max_retries verbose w) = None \<and>
   map fst (collected_results e image_urls out_dir max_retries verbose w) =
     map job_idx (build_jobs (url_parse e) out_dir image_urls) \<and>
   length (collected_results e image_urls out_dir max_retries verbose w) =
     length (filter (is_valid_image_url (url_parse e)) image_urls) \<and>
   console (snd (download_images_threaded e image_urls out_dir max_retries verbose w)) =
     console w @
     (if verbose \<and> build_jobs (url_parse e) out_dir image_urls \<noteq> []
      then [ImagesExtracted (map (\<lambda>j. (job_idx j, job_url j))
                               (build_jobs (url_parse e) out_dir image_urls)),
            DownloadResults (sort_key fst
              (collected_results e image_urls out_dir max_retries verbose w))]
      else []) @
     [FilesProcessed (length (collected_results e image_urls out_dir max_retries verbose w)) out_dir]"
proof -
  let ?jobs = "build_jobs (url_parse e) out_dir image_urls"
  let ?w1 = "if verbose \<and> ?jobs \<noteq> []
             then say (ImagesExtracted (map (\<lambda>j. (job_idx j, job_url j)) ?jobs)) w else w"
  obtain total_est w2 where est: "estimate_total e ?jobs 0 ?w1 = (total_est, w2)"
    by (cases "estimate_total e ?jobs 0 ?w1")
  obtain results w3 where run: "run_downloads e max_retries ?jobs [] w2 = (results, w3)"
    by (cases "run_downloads e max_retries ?jobs [] w2")
  have cr: "collected_results e image_urls out_dir max_retries verbose w = results"
    using est run by (simp add: collected_results_def Let_def)
  have m: "map fst results = map job_idx ?jobs"
    using run_downloads_results[of e max_retries ?jobs "[]" w2] run by simp
  then have "length (map fst results) = length (map job_idx ?jobs)" by simp
  then have l: "length results = length ?jobs" by simp
  then have ne: "results \<noteq> [] \<longleftrightarrow> ?jobs \<noteq> []" by auto
  have c2: "console w2 = console ?w1"
    using estimate_total_console[of e ?jobs 0 ?w1] est by simp
  have c3: "console w3 = console w2"
    using run_downloads_console[of e max_retries ?jobs "[]" w2] run by simp
  have d: "download_images_threaded e image_urls out_dir max_retries verbose w =
      (None, say (FilesProcessed (length results) out_dir)
         (if verbose \<and> results \<noteq> [] then say (DownloadResults (sort_key fst results)) w3 else w3))"
    using est run by (simp add: download_images_threaded_def Let_def)
  have a: "fst (download_images_threaded e image_urls out_dir max_retries verbose w) = None"
    unfolding d by simp
  have c: "console (snd (download_images_threaded e image_urls out_dir max_retries verbose w)) =
     console w @
     (if verbose \<and> ?jobs \<noteq> []
      then [ImagesExtracted (map (\<lambda>j. (job_idx j, job_url j)) ?jobs),
            DownloadResults (sort_key fst results)]
      else []) @
     [FilesProcessed (length results) out_dir]"
    unfolding d using c2 c3 ne by simp
  show ?thesis
    unfolding cr using a m l c by (simp add: length_build_jobs)
qed

theorem download_returns_none_witness:
  "fst (download_images_threaded env_examples [''https://cdn.example/a/p1.PNG''] ''out'' 2 False
          world_empty) = None \<and>
   length (collected_results env_examples [''https://cdn.example/a/p1.PNG''] ''out'' 2 False
          world_empty) = 1"
proof -
  have "filter (is_valid_image_url (url_parse env_examples)) [''https://cdn.example/a/p1.PNG''] =
      [''https://cdn.example/a/p1.PNG'']"
    by code_simp
  then show ?thesis
    using download_returns_none[of env_examples "[''https://cdn.example/a/p1.PNG'']" "''out''" 2
        False world_empty]
    by simp
qed

text \<open>
  Claim C5, as stated, fails: for one address that downloads successfully the function
  has collected one outcome and returns \<open>None\<close>.
\<close>

theorem download_returns_counterexample:
  "fst (download_images_threaded env_examples [''https://cdn.example/a/p1.PNG''] ''out'' 2 False
          world_empty) \<noteq>
     Some (collected_results env_examples [''https://cdn.example/a/p1.PNG''] ''out'' 2 False
          world_empty) \<and>
   fst (download_images_threaded env_examples [''https://cdn.example/a/p1.PNG''] ''out'' 2 False
          world_empty) = None \<and>
   collected_results env_examples [''https://cdn.example/a/p1.PNG''] ''out'' 2 False world_empty =
     [(1, ''out/001.png'', True, 5, None)]"
  by code_simp

section \<open>Which files reach the document\<close>






















end
